theory Spec2Isabelle
  imports Complex_Main "HOL-Library.Char_ord" "HOL-Library.List_Lexorder" "HOL-Library.AList"
begin

section \<open>Strings\<close>

text \<open>
  Python strings are sequences of code points. The model uses \<^typ>\<open>string\<close>, so a
  character is a code point below 256; the character classes below are Python's
  \<^verbatim>\<open>str.isspace\<close> and the \<^verbatim>\<open>\w\<close> class of \<^verbatim>\<open>re\<close> on that range.
\<close>

definition is_space :: "char \<Rightarrow> bool" where
  "is_space c =
     (let n = (of_char c :: nat)
      in (9 \<le> n \<and> n \<le> 13) \<or> (28 \<le> n \<and> n \<le> 32) \<or> n = 133 \<or> n = 160)"

definition is_word_char :: "char \<Rightarrow> bool" where
  "is_word_char c =
     (let n = (of_char c :: nat)
      in (48 \<le> n \<and> n \<le> 57) \<or> (65 \<le> n \<and> n \<le> 90) \<or> n = 95 \<or> (97 \<le> n \<and> n \<le> 122)
         \<or> n = 170 \<or> n = 178 \<or> n = 179 \<or> n = 181 \<or> n = 185 \<or> n = 186
         \<or> (188 \<le> n \<and> n \<le> 190) \<or> (192 \<le> n \<and> n \<le> 214)
         \<or> (216 \<le> n \<and> n \<le> 246) \<or> (248 \<le> n \<and> n \<le> 255))"

text \<open>\<^verbatim>\<open>str.strip()\<close>: whitespace removed at both ends.\<close>

definition strip :: "string \<Rightarrow> string" where
  "strip s = rev (dropWhile is_space (rev (dropWhile is_space s)))"

text \<open>\<^verbatim>\<open>sep.join(parts)\<close>.\<close>

fun join :: "string \<Rightarrow> string list \<Rightarrow> string" where
  "join sep [] = []"
| "join sep [x] = x"
| "join sep (x # y # ys) = x @ sep @ join sep (y # ys)"

text \<open>\<^verbatim>\<open>str(n)\<close> for a non-negative integer.\<close>

fun str_nat :: "nat \<Rightarrow> string" where
  "str_nat n =
     (if n < 10 then [''0123456789'' ! n]
      else str_nat (n div 10) @ [''0123456789'' ! (n mod 10)])"

section \<open>Text chunker (backend/app/core/chunking.py)\<close>

text \<open>
  A sentence is the dictionary built by \<^verbatim>\<open>_split_into_sentences\<close>, a chunk is
  \<^verbatim>\<open>ChunkMetadata\<close>. Offsets and token counts are Python integers.
\<close>

record sentence =
  s_text :: string
  s_start :: int
  s_end :: int
  s_tokens :: int

record chunk_metadata =
  c_text :: string
  c_index :: int
  start_char :: int
  end_char :: int
  token_count :: int

definition is_terminator :: "char \<Rightarrow> bool" where
  "is_terminator c \<longleftrightarrow> c = CHR ''.'' \<or> c = CHR ''!'' \<or> c = CHR ''?''"

text \<open>
  \<^verbatim>\<open>sentence_pattern.finditer(text)\<close> for the pattern
  \<^verbatim>\<open>[^.!?]+(?:[.!?]+|$)\<close>: the search skips terminators (no match can start on
  one), then the greedy \<^verbatim>\<open>[^.!?]+\<close> takes the longest run of other characters and
  is followed either by a terminator, where the greedy \<^verbatim>\<open>[.!?]+\<close> takes the whole run
  of terminators, or by the end of the text, where \<^verbatim>\<open>$\<close> matches. The first attempt
  always succeeds, so no backtracking happens. Each match is returned as
  (start, end, group), and the search goes on from the end of the match.
\<close>

function finditer :: "int \<Rightarrow> string \<Rightarrow> (int \<times> int \<times> string) list" where
  "finditer pos cs =
     (case dropWhile is_terminator cs of
        [] \<Rightarrow> []
      | c # rest \<Rightarrow>
          (let start = pos + int (length (takeWhile is_terminator cs));
               body = c # takeWhile (\<lambda>x. \<not> is_terminator x) rest;
               after = dropWhile (\<lambda>x. \<not> is_terminator x) rest;
               punct = takeWhile is_terminator after;
               stop = start + int (length body) + int (length punct)
           in (start, stop, body @ punct) # finditer stop (dropWhile is_terminator after)))"
  by pat_completeness auto
termination
proof (relation "measure (\<lambda>(pos, cs). length cs)")
  show "wf (measure (\<lambda>(pos, cs). length cs))" by simp
next
  fix pos :: int and cs :: string and c rest start body after punct stop
  assume d: "dropWhile is_terminator cs = c # rest"
    and a: "after = dropWhile (\<lambda>x. \<not> is_terminator x) rest"
  have "length (dropWhile is_terminator after) \<le> length after"
    by (rule length_dropWhile_le)
  also have "\<dots> \<le> length rest"
    unfolding a by (rule length_dropWhile_le)
  also have "\<dots> < length (dropWhile is_terminator cs)"
    by (simp add: d)
  also have "\<dots> \<le> length cs"
    by (rule length_dropWhile_le)
  finally show "((stop, dropWhile is_terminator after), (pos, cs))
      \<in> measure (\<lambda>(pos, cs). length cs)"
    by simp
qed

declare finditer.simps [simp del]

text \<open>
  \<^verbatim>\<open>len(re.findall(r"\w+", text))\<close>: the number of maximal runs of word characters.
  The flag says whether the previous character was a word character.
\<close>

fun count_words :: "bool \<Rightarrow> string \<Rightarrow> nat" where
  "count_words inw [] = 0"
| "count_words inw (c # cs) =
     (if is_word_char c then (if inw then 0 else 1) + count_words True cs
      else count_words False cs)"

text \<open>
  \<^verbatim>\<open>max(1, int(math.ceil(len(words) * 1.3)))\<close>. The product is a float in the source;
  the model takes the ceiling of the exact product 13 n / 10, which the float computation
  returns for every word count a text can have.
\<close>

definition estimate_tokens :: "string \<Rightarrow> int" where
  "estimate_tokens s = max 1 ((13 * int (count_words False s) + 9) div 10)"

definition split_into_sentences :: "string \<Rightarrow> sentence list" where
  "split_into_sentences txt =
     (let sentences =
            concat (map (\<lambda>(start, stop, grp).
                      let sentence_text = strip grp
                      in if sentence_text = [] then []
                         else [\<lparr>s_text = sentence_text, s_start = start, s_end = stop,
                                s_tokens = estimate_tokens sentence_text\<rparr>])
                    (finditer 0 txt))
      in if sentences = []
         then [\<lparr>s_text = strip txt, s_start = 0, s_end = int (length txt),
                s_tokens = estimate_tokens txt\<rparr>]
         else sentences)"

text \<open>
  \<^verbatim>\<open>_apply_overlap\<close>: the loop walks the closed chunk's sentences backwards; it
  inserts the sentence first and tests the token total afterwards.
\<close>

fun overlap_loop :: "int \<Rightarrow> sentence list \<Rightarrow> sentence list \<Rightarrow> int \<Rightarrow> sentence list \<times> int" where
  "overlap_loop overlap [] overlap_sentences tokens = (overlap_sentences, tokens)"
| "overlap_loop overlap (s # rest) overlap_sentences tokens =
     (let overlap_sentences' = s # overlap_sentences;
          tokens' = tokens + s_tokens s
      in if tokens' \<ge> overlap then (overlap_sentences', tokens')
         else overlap_loop overlap rest overlap_sentences' tokens')"

definition apply_overlap :: "sentence list \<Rightarrow> int \<Rightarrow> sentence list \<times> int" where
  "apply_overlap sentences overlap = overlap_loop overlap (rev sentences) [] 0"

text \<open>
  \<^verbatim>\<open>_finalize_chunk\<close>. Both call sites pass a non-empty list (they are guarded by
  \<^verbatim>\<open>if current\<close>), so \<^verbatim>\<open>sentences[0]\<close> and \<^verbatim>\<open>sentences[-1]\<close> exist.
\<close>

definition finalize_chunk :: "sentence list \<Rightarrow> int \<Rightarrow> chunk_metadata" where
  "finalize_chunk sentences index =
     \<lparr>c_text = strip (join '' '' (map s_text sentences)),
      c_index = index,
      start_char = s_start (hd sentences),
      end_char = s_end (last sentences),
      token_count = sum_list (map s_tokens sentences)\<rparr>"

text \<open>The \<^verbatim>\<open>for sentence in sentences\<close> loop of \<^verbatim>\<open>chunk\<close> and the final flush.\<close>

fun chunk_loop ::
  "int \<Rightarrow> int \<Rightarrow> sentence list \<Rightarrow> chunk_metadata list \<Rightarrow> sentence list \<Rightarrow> int
     \<Rightarrow> chunk_metadata list" where
  "chunk_loop chunk_size overlap [] chunks current current_tokens =
     (if current \<noteq> [] then chunks @ [finalize_chunk current (int (length chunks))]
      else chunks)"
| "chunk_loop chunk_size overlap (s # ss) chunks current current_tokens =
     (if current \<noteq> [] \<and> current_tokens + s_tokens s > chunk_size
      then (case apply_overlap current overlap of
              (current', current_tokens') \<Rightarrow>
                chunk_loop chunk_size overlap ss
                  (chunks @ [finalize_chunk current (int (length chunks))])
                  (current' @ [s]) (current_tokens' + s_tokens s))
      else chunk_loop chunk_size overlap ss chunks (current @ [s])
             (current_tokens + s_tokens s))"

definition chunk :: "string \<Rightarrow> int \<Rightarrow> int \<Rightarrow> chunk_metadata list" where
  "chunk txt chunk_size overlap =
     (if txt = [] then []
      else chunk_loop chunk_size overlap (split_into_sentences txt) [] [] 0)"

section \<open>Errors and files\<close>

text \<open>
  The exceptions the pipeline raises or lets through. \<open>OtherError\<close> stands for an
  exception of any other class, raised by a collaborator (the PDF library, the embedding
  model, the vector store client, the operating system).
\<close>

datatype error =
    FileNotFoundError string
  | ValueError string
  | RuntimeError string
  | AttributeError string
  | OtherError string

text \<open>\<^verbatim>\<open>str(exc)\<close>.\<close>

fun exc_str :: "error \<Rightarrow> string" where
  "exc_str (FileNotFoundError m) = m"
| "exc_str (ValueError m) = m"
| "exc_str (RuntimeError m) = m"
| "exc_str (AttributeError m) = m"
| "exc_str (OtherError m) = m"

text \<open>
  The file system maps a resolved absolute path to a node: a regular file with its bytes,
  or a directory. Paths are given resolved, so \<^verbatim>\<open>Path(p).expanduser().resolve()\<close> is the
  identity.
\<close>

datatype node = File string | Directory

type_synonym filesystem = "(string \<times> node) list"

definition path_exists :: "filesystem \<Rightarrow> string \<Rightarrow> bool" where
  "path_exists fs p = (map_of fs p \<noteq> None)"

definition is_file :: "filesystem \<Rightarrow> string \<Rightarrow> bool" where
  "is_file fs p = (case map_of fs p of Some (File bs) \<Rightarrow> True | _ \<Rightarrow> False)"

text \<open>\<^verbatim>\<open>path.open(...)\<close> followed by reading the file.\<close>

definition read_bytes :: "filesystem \<Rightarrow> string \<Rightarrow> error + string" where
  "read_bytes fs p =
     (case map_of fs p of
        None \<Rightarrow> Inl (FileNotFoundError p)
      | Some Directory \<Rightarrow> Inl (OtherError ''IsADirectoryError'')
      | Some (File bs) \<Rightarrow> Inr bs)"

text \<open>\<^verbatim>\<open>path.name\<close>, \<^verbatim>\<open>path.parent\<close> and \<^verbatim>\<open>path.suffix\<close>: the suffix starts at the last
  dot of the name, unless that dot is the first or the last character of the name.\<close>

definition path_name :: "string \<Rightarrow> string" where
  "path_name p = rev (takeWhile (\<lambda>c. c \<noteq> CHR ''/'') (rev p))"

definition path_parent :: "string \<Rightarrow> string" where
  "path_parent p = rev (drop 1 (dropWhile (\<lambda>c. c \<noteq> CHR ''/'') (rev p)))"

definition path_suffix :: "string \<Rightarrow> string" where
  "path_suffix p =
     (let name = path_name p;
          ext = rev (takeWhile (\<lambda>c. c \<noteq> CHR ''.'') (rev name))
      in if CHR ''.'' \<in> set name \<and> ext \<noteq> [] \<and> length ext + 1 < length name
         then CHR ''.'' # ext else [])"

text \<open>\<^verbatim>\<open>str.lower()\<close> on code points below 256.\<close>

definition lower_char :: "char \<Rightarrow> char" where
  "lower_char c =
     (let n = (of_char c :: nat)
      in if (65 \<le> n \<and> n \<le> 90) \<or> (192 \<le> n \<and> n \<le> 222 \<and> n \<noteq> 215)
         then char_of (n + 32) else c)"

definition lower :: "string \<Rightarrow> string" where
  "lower s = map lower_char s"

section \<open>Content hash (parser.py, indexer.py)\<close>

text \<open>
  \<^verbatim>\<open>hashlib.sha256\<close> is outside the repository. It is taken as a parameter: the state
  of a fresh digest, \<^verbatim>\<open>update\<close> and \<^verbatim>\<open>hexdigest\<close>.
\<close>

record 'd hasher =
  new :: 'd
  update :: "'d \<Rightarrow> string \<Rightarrow> 'd"
  hexdigest :: "'d \<Rightarrow> string"

text \<open>
  \<^verbatim>\<open>iter(lambda: file_handle.read(chunk_size), b"")\<close>: blocks of \<open>chunk_size\<close> bytes
  until a read returns the empty bytes, which it does at the end of the file, and at once
  when \<open>chunk_size\<close> is 0.
\<close>

function read_blocks :: "nat \<Rightarrow> string \<Rightarrow> string list" where
  "read_blocks chunk_size bs =
     (if chunk_size = 0 \<or> bs = [] then []
      else take chunk_size bs # read_blocks chunk_size (drop chunk_size bs))"
  by pat_completeness auto
termination
  by (relation "measure (\<lambda>(chunk_size, bs). length bs)") auto

declare read_blocks.simps [simp del]

text \<open>\<^verbatim>\<open>DocumentParser._compute_hash\<close>.\<close>

definition compute_hash :: "'d hasher \<Rightarrow> filesystem \<Rightarrow> string \<Rightarrow> nat \<Rightarrow> error + string" where
  "compute_hash sha fs path chunk_size =
     (case read_bytes fs path of
        Inl e \<Rightarrow> Inl e
      | Inr bs \<Rightarrow>
          Inr (hexdigest sha
                 (foldl (\<lambda>digest block. update sha digest block) (new sha)
                    (read_blocks chunk_size bs))))"

text \<open>\<^verbatim>\<open>DocumentIndexer._compute_file_hash\<close>.\<close>

definition compute_file_hash :: "'d hasher \<Rightarrow> filesystem \<Rightarrow> string \<Rightarrow> nat \<Rightarrow> error + string" where
  "compute_file_hash sha fs path chunk_size =
     (case read_bytes fs path of
        Inl e \<Rightarrow> Inl e
      | Inr bs \<Rightarrow>
          Inr (hexdigest sha
                 (foldl (\<lambda>digest block. update sha digest block) (new sha)
                    (read_blocks chunk_size bs))))"

section \<open>Document parser (backend/app/core/parser.py)\<close>

text \<open>The metadata dictionary that \<^verbatim>\<open>_chunk_pages\<close> builds for a chunk, and a point of
  the vector store: its vector and its payload, which is the chunk text and the metadata.\<close>

record chunk_meta =
  m_id :: string
  m_document_id :: nat
  m_document_path :: string
  m_filename :: string
  m_page_num :: nat
  m_chunk_index :: nat
  m_page_chunk_index :: int
  m_start_char :: int
  m_end_char :: int
  m_token_count :: int

record 'v point =
  p_vector :: 'v
  p_text :: string
  p_meta :: chunk_meta

text \<open>
  The collaborators of the pipeline are outside the repository and are taken as
  parameters. \<open>pdf_reader\<close> is \<^verbatim>\<open>PdfReader(str(path)).pages\<close> as a function of the
  file's bytes: it raises, or gives one entry per page, and \<^verbatim>\<open>extract_text()\<close> on a
  page returns a string or \<^verbatim>\<open>None\<close>, or raises. \<open>decode_text\<close> is the text-mode read
  with \<^verbatim>\<open>encoding="utf-8", errors="ignore"\<close>. \<open>embed\<close> is the embedding model.
  \<open>upsert\<close> is \<^verbatim>\<open>QdrantClient.upsert\<close> on the collection of the base: from the
  stored points (\<open>None\<close> when the collection does not exist) and the points to write it
  raises, or gives the stored points after the write. \<open>utcnow\<close> is the clock.
\<close>

datatype page_extract = Extracted "string option" | ExtractFault

record ('d, 'v) env =
  sha256 :: "'d hasher"
  pdf_reader :: "string \<Rightarrow> error + page_extract list"
  decode_text :: "string \<Rightarrow> string"
  embed :: "string list \<Rightarrow> error + 'v list"
  upsert :: "(string \<times> 'v point) list option \<Rightarrow> (string \<times> 'v point) list
               \<Rightarrow> error + (string \<times> 'v point) list"
  utcnow :: nat

text \<open>\<^verbatim>\<open>_parse_pdf\<close>: a page whose extraction raises becomes the empty string.\<close>

fun extract_page :: "page_extract \<Rightarrow> string" where
  "extract_page ExtractFault = strip []"
| "extract_page (Extracted None) = strip []"
| "extract_page (Extracted (Some t)) = strip t"

definition parse_pdf :: "('d, 'v) env \<Rightarrow> filesystem \<Rightarrow> string \<Rightarrow> error + string list" where
  "parse_pdf env fs path =
     (case read_bytes fs path of
        Inl e \<Rightarrow> Inl e
      | Inr bs \<Rightarrow>
          (case pdf_reader env bs of
             Inl e \<Rightarrow> Inl e
           | Inr reader_pages \<Rightarrow> Inr (map extract_page reader_pages)))"

text \<open>\<^verbatim>\<open>_split_text\<close>: one page per start offset in
  \<^verbatim>\<open>range(0, len(text), page_size)\<close>.\<close>

definition split_text :: "string \<Rightarrow> nat \<Rightarrow> string list" where
  "split_text txt page_size =
     map (\<lambda>k. strip (take page_size (drop (k * page_size) txt)))
       [0 ..< (length txt + page_size - 1) div page_size]"

definition parse_text_file :: "('d, 'v) env \<Rightarrow> filesystem \<Rightarrow> string \<Rightarrow> error + string list" where
  "parse_text_file env fs path =
     (case read_bytes fs path of
        Inl e \<Rightarrow> Inl e
      | Inr bs \<Rightarrow>
          (let content = decode_text env bs
           in if content = [] then Inr [] else Inr (split_text content 3000)))"

text \<open>The body of the \<^verbatim>\<open>try\<close> block of \<^verbatim>\<open>parse\<close>: dispatch on the lowered suffix.\<close>

definition parse_dispatch :: "('d, 'v) env \<Rightarrow> filesystem \<Rightarrow> string \<Rightarrow> error + string list" where
  "parse_dispatch env fs path =
     (let suffix = lower (path_suffix path)
      in if suffix = ''.pdf'' then parse_pdf env fs path
         else if suffix = ''.txt'' \<or> suffix = ''.md'' then parse_text_file env fs path
         else Inl (ValueError (''Unsupported file type: '' @ suffix)))"

text \<open>\<^verbatim>\<open>except (FileNotFoundError, ValueError): raise\<close>; any other exception is wrapped.\<close>

fun reraised :: "error \<Rightarrow> bool" where
  "reraised (FileNotFoundError m) = True"
| "reraised (ValueError m) = True"
| "reraised e = False"

text \<open>
  \<^verbatim>\<open>DocumentParser.parse\<close>. The second component is the parser's
  \<^verbatim>\<open>last_file_hash\<close> after the call; it is set only when the parse succeeds. The hash
  is computed before the \<^verbatim>\<open>try\<close> block, so an error of the hash is not wrapped.
\<close>

definition parse ::
  "('d, 'v) env \<Rightarrow> filesystem \<Rightarrow> string \<Rightarrow> string option
     \<Rightarrow> (error + string list) \<times> string option" where
  "parse env fs path last_file_hash =
     (if \<not> path_exists fs path
      then (Inl (FileNotFoundError (''File not found: '' @ path)), last_file_hash)
      else
        (case compute_hash (sha256 env) fs path 8192 of
           Inl e \<Rightarrow> (Inl e, last_file_hash)
         | Inr file_hash \<Rightarrow>
             (case parse_dispatch env fs path of
                Inl e \<Rightarrow>
                  (if reraised e then (Inl e, last_file_hash)
                   else (Inl (RuntimeError (''Failed to parse file '' @ path)), last_file_hash))
              | Inr pages \<Rightarrow> (Inr pages, Some file_hash))))"

section \<open>Stores (backend/app/models/database.py, backend/app/core/vectordb.py)\<close>

text \<open>
  The rows of the tables \<^verbatim>\<open>documents\<close> and \<^verbatim>\<open>pages\<close>. The primary key of a page is
  used nowhere in the pipeline and is left out.
\<close>

record document =
  doc_id :: nat
  filename :: string
  doc_path :: string
  base_name :: string
  total_pages :: "nat option"
  file_hash :: string
  indexed_at :: nat

record page =
  document_id :: nat
  page_num :: nat
  content :: string
  char_count :: nat

text \<open>The calls to the parser, the chunker and the embedding service are recorded, so that
  a run that makes none of them can be told from one that does.\<close>

datatype call = ParseCall string | ChunkCall string | EmbedCall "string list"

text \<open>
  The state of one knowledge base, which is all that a call for that base reaches
  (\<^verbatim>\<open>get_session(base_name)\<close>, \<^verbatim>\<open>_get_client(base_name)\<close>): the two tables as the
  session sees them, the snapshots of the tables at every \<^verbatim>\<open>session.commit()\<close> so far,
  the Qdrant collection of the base (\<open>None\<close> while it does not exist; points by id),
  the parser's \<^verbatim>\<open>last_file_hash\<close>, the progress events delivered to the observer, and
  the recorded calls. Store operations themselves do not fail in the model, and the logger
  is not modelled.
\<close>

record 'v state =
  documents :: "document list"
  pages :: "page list"
  commits :: "(document list \<times> page list) list"
  collection :: "(string \<times> 'v point) list option"
  last_file_hash :: "string option"
  reported :: "(string \<times> real option) list"
  calls :: "call list"

text \<open>
  A progress callback receives a message and a fraction or \<^verbatim>\<open>None\<close>; what it does is
  given by the events it delivers to the observer. \<^verbatim>\<open>_progress_emitter\<close> calls it when
  there is one.
\<close>

type_synonym progress_callback = "string \<Rightarrow> real option \<Rightarrow> (string \<times> real option) list"

definition observer :: progress_callback where
  "observer message progress = [(message, progress)]"

definition progress_emitter ::
  "progress_callback option \<Rightarrow> string \<Rightarrow> real option \<Rightarrow> 'v state \<Rightarrow> 'v state" where
  "progress_emitter callback message progress st =
     (case callback of
        None \<Rightarrow> st
      | Some cb \<Rightarrow> st\<lparr>reported := reported st @ cb message progress\<rparr>)"

definition commit :: "'v state \<Rightarrow> 'v state" where
  "commit st = st\<lparr>commits := commits st @ [(documents st, pages st)]\<rparr>"

text \<open>The id SQLite gives a new row: one more than the largest id in the table.\<close>

definition new_document_id :: "document list \<Rightarrow> nat" where
  "new_document_id docs = Suc (fold max (map doc_id docs) 0)"

text \<open>The \<^verbatim>\<open>UPDATE\<close> that \<^verbatim>\<open>session.add(document)\<close> and the commit issue for a row
  that is already stored: the row with the document's primary key is replaced.\<close>

definition update_document :: "document \<Rightarrow> document list \<Rightarrow> document list" where
  "update_document d docs = map (\<lambda>x. if doc_id x = doc_id d then d else x) docs"

text \<open>\<^verbatim>\<open>QdrantService.create_collection\<close> and the \<^verbatim>\<open>_ensure_collection\<close> of the
  indexer: \<^verbatim>\<open>get_collection\<close> raises when the collection does not exist, and only then
  the collection is created, empty.\<close>

definition create_collection :: "'v state \<Rightarrow> 'v state" where
  "create_collection st = st\<lparr>collection := Some []\<rparr>"

definition ensure_collection :: "'v state \<Rightarrow> 'v state" where
  "ensure_collection st =
     (case collection st of None \<Rightarrow> create_collection st | Some points \<Rightarrow> st)"

text \<open>\<^verbatim>\<open>EmbeddingService.embed_texts\<close>.\<close>

definition embed_texts :: "('d, 'v) env \<Rightarrow> string list \<Rightarrow> error + 'v list" where
  "embed_texts env texts = (if texts = [] then Inr [] else embed env texts)"

text \<open>
  \<^verbatim>\<open>QdrantService.add_documents\<close>, for metadata that carries a non-empty \<^verbatim>\<open>"id"\<close>, as
  every dictionary of \<^verbatim>\<open>_chunk_pages\<close> does (the \<^verbatim>\<open>uuid4\<close> fallback is not reached).
  The write itself is the client's \<^verbatim>\<open>upsert\<close>.
\<close>

definition add_documents ::
  "('d, 'v) env \<Rightarrow> string list \<Rightarrow> 'v list \<Rightarrow> chunk_meta list \<Rightarrow> 'v state
     \<Rightarrow> error + (string list \<times> 'v state)" where
  "add_documents env chunks embeddings metadata st =
     (if \<not> (length chunks = length embeddings \<and> length embeddings = length metadata)
      then Inl (ValueError ''chunks, embeddings, and metadata must be the same length'')
      else
        (let points =
               map (\<lambda>(chunk, embedding, meta).
                      (m_id meta, \<lparr>p_vector = embedding, p_text = chunk, p_meta = meta\<rparr>))
                   (zip chunks (zip embeddings metadata))
         in case upsert env (collection st) points of
              Inl e \<Rightarrow> Inl e
            | Inr stored \<Rightarrow> Inr (map fst points, st\<lparr>collection := Some stored\<rparr>)))"

text \<open>
  \<^verbatim>\<open>self.vectordb.delete_document_chunks(base_name, document_path)\<close>: the class
  \<^verbatim>\<open>QdrantService\<close> defines \<^verbatim>\<open>_get_client\<close>, \<^verbatim>\<open>create_collection\<close>,
  \<^verbatim>\<open>add_documents\<close>, \<^verbatim>\<open>search\<close> and \<^verbatim>\<open>delete_document\<close>, and no
  \<^verbatim>\<open>delete_document_chunks\<close>, so the attribute lookup raises \<open>AttributeError\<close>.
\<close>

definition delete_document_chunks :: "string \<Rightarrow> string \<Rightarrow> 'v state \<Rightarrow> error + 'v state" where
  "delete_document_chunks base document_path st =
     Inl (AttributeError ''QdrantService object has no attribute delete_document_chunks'')"

section \<open>Indexing orchestrator (backend/app/services/indexer.py)\<close>

text \<open>\<^verbatim>\<open>_get_or_create_document\<close>: the first row with the path, if any.\<close>

definition get_or_create_document ::
  "('d, 'v) env \<Rightarrow> string \<Rightarrow> string \<Rightarrow> string \<Rightarrow> 'v state \<Rightarrow> document \<times> 'v state" where
  "get_or_create_document env path base file_hash' st =
     (case find (\<lambda>d. doc_path d = path) (documents st) of
        Some document \<Rightarrow>
          (if file_hash document = file_hash' \<and> total_pages document \<noteq> None
           then (document, st)
           else
             (let document = document\<lparr>filename := path_name path, doc_path := path,
                                base_name := base, file_hash := file_hash',
                                total_pages := None, indexed_at := utcnow env\<rparr>
              in (document, commit (st\<lparr>documents := update_document document (documents st)\<rparr>))))
      | None \<Rightarrow>
          (let document = \<lparr>doc_id = new_document_id (documents st), filename = path_name path,
                           doc_path = path, base_name = base, total_pages = None,
                           file_hash = file_hash', indexed_at = utcnow env\<rparr>
           in (document, commit (st\<lparr>documents := documents st @ [document]\<rparr>))))"

text \<open>\<^verbatim>\<open>_store_pages\<close>: page numbers start at 1.\<close>

definition new_pages :: "nat \<Rightarrow> string list \<Rightarrow> page list" where
  "new_pages doc pgs =
     map (\<lambda>(num, text). \<lparr>document_id = doc, page_num = num, content = text,
                          char_count = length text\<rparr>)
       (zip [1 ..< Suc (length pgs)] pgs)"

definition store_pages :: "nat \<Rightarrow> string list \<Rightarrow> 'v state \<Rightarrow> 'v state" where
  "store_pages doc pgs st = st\<lparr>pages := pages st @ new_pages doc pgs\<rparr>"

text \<open>
  \<^verbatim>\<open>_chunk_pages\<close>: the inner loop over the chunks of one page and the outer loop over
  the numbered pages. The accumulator is the chunk texts, the metadata and
  \<^verbatim>\<open>chunk_counter\<close>. The chunker is called with its defaults, 512 and 50.
\<close>

fun chunk_page_loop ::
  "string \<Rightarrow> nat \<Rightarrow> nat \<Rightarrow> chunk_metadata list \<Rightarrow> string list \<times> chunk_meta list \<times> nat
     \<Rightarrow> string list \<times> chunk_meta list \<times> nat" where
  "chunk_page_loop path doc num [] acc = acc"
| "chunk_page_loop path doc num (c # cs) (chunks, metadata, chunk_counter) =
     (let text = strip (c_text c)
      in if text = [] then chunk_page_loop path doc num cs (chunks, metadata, chunk_counter)
         else chunk_page_loop path doc num cs
                (chunks @ [text],
                 metadata @
                   [\<lparr>m_id = str_nat doc @ '':'' @ str_nat num @ '':'' @ str_nat chunk_counter,
                     m_document_id = doc, m_document_path = path, m_filename = path_name path,
                     m_page_num = num, m_chunk_index = chunk_counter,
                     m_page_chunk_index = c_index c, m_start_char = start_char c,
                     m_end_char = end_char c, m_token_count = token_count c\<rparr>],
                 chunk_counter + 1))"

fun chunk_pages_loop ::
  "string \<Rightarrow> nat \<Rightarrow> (nat \<times> string) list \<Rightarrow> string list \<times> chunk_meta list \<times> nat \<Rightarrow> 'v state
     \<Rightarrow> (string list \<times> chunk_meta list \<times> nat) \<times> 'v state" where
  "chunk_pages_loop path doc [] acc st = (acc, st)"
| "chunk_pages_loop path doc ((num, text) # rest) acc st =
     chunk_pages_loop path doc rest
       (chunk_page_loop path doc num (chunk text 512 50) acc)
       (st\<lparr>calls := calls st @ [ChunkCall text]\<rparr>)"

definition chunk_pages ::
  "string \<Rightarrow> nat \<Rightarrow> string list \<Rightarrow> 'v state \<Rightarrow> (string list \<times> chunk_meta list) \<times> 'v state" where
  "chunk_pages path doc pgs st =
     (case chunk_pages_loop path doc (zip [1 ..< Suc (length pgs)] pgs) ([], [], 0) st of
        ((chunks, metadata, chunk_counter), st') \<Rightarrow> ((chunks, metadata), st'))"

text \<open>\<^verbatim>\<open>_clear_document_vectors\<close>: the \<open>AttributeError\<close> is caught and the cleanup is
  skipped; any other exception goes on to the caller.\<close>

definition clear_document_vectors :: "string \<Rightarrow> string \<Rightarrow> 'v state \<Rightarrow> error + 'v state" where
  "clear_document_vectors base document_path st =
     (case delete_document_chunks base document_path st of
        Inl (AttributeError m) \<Rightarrow> Inr st
      | Inl e \<Rightarrow> Inl e
      | Inr st' \<Rightarrow> Inr st')"

text \<open>Lines 91 to 110 of \<^verbatim>\<open>index_document\<close>: chunking, embedding and the vector store.\<close>

definition index_vectors ::
  "('d, 'v) env \<Rightarrow> string \<Rightarrow> string \<Rightarrow> progress_callback option \<Rightarrow> document \<Rightarrow> string list
     \<Rightarrow> 'v state \<Rightarrow> (error + document) \<times> 'v state" where
  "index_vectors env path base callback document pgs st0 =
     (let emit = progress_emitter callback;
          st1 = emit ''Chunking content'' (Some 0.55) st0
      in case chunk_pages path (doc_id document) pgs st1 of
           ((chunks, metadata), st2) \<Rightarrow>
             (let st3 = ensure_collection st2
              in if chunks = [] then
                   (let st4 = emit ''No content available for embeddings'' (Some 0.9) st3
                    in case clear_document_vectors base path st4 of
                         Inl e \<Rightarrow> (Inl e, st4)
                       | Inr st5 \<Rightarrow> (Inr document, emit ''Indexing complete'' (Some 1) st5))
                 else
                   (let st4 = emit ''Generating embeddings'' (Some 0.7) st3;
                        st5 = st4\<lparr>calls := calls st4 @ [EmbedCall chunks]\<rparr>
                    in case embed_texts env chunks of
                         Inl e \<Rightarrow> (Inl e, st5)
                       | Inr embeddings \<Rightarrow>
                           (let st6 = emit ''Updating vector store'' (Some 0.85) st5
                            in case clear_document_vectors base path st6 of
                                 Inl e \<Rightarrow> (Inl e, st6)
                               | Inr st7 \<Rightarrow>
                                   (case add_documents env chunks embeddings metadata st7 of
                                      Inl e \<Rightarrow> (Inl e, st7)
                                    | Inr (ids, st8) \<Rightarrow>
                                        (Inr document,
                                         emit ''Indexing complete'' (Some 1) st8))))))"

text \<open>Lines 75 to 89 of \<^verbatim>\<open>index_document\<close>, followed by the lines above: the parse, the
  delete of the old pages, the page count, the new pages, each with its own commit.\<close>

definition reindex ::
  "('d, 'v) env \<Rightarrow> filesystem \<Rightarrow> string \<Rightarrow> string \<Rightarrow> progress_callback option \<Rightarrow> document
     \<Rightarrow> 'v state \<Rightarrow> (error + document) \<times> 'v state" where
  "reindex env fs path base callback document st0 =
     (let emit = progress_emitter callback;
          st1 = emit ''Parsing document'' (Some 0.2) st0;
          st2 = st1\<lparr>calls := calls st1 @ [ParseCall path]\<rparr>
      in case parse env fs path (last_file_hash st2) of
           (Inl e, lfh) \<Rightarrow> (Inl e, st2\<lparr>last_file_hash := lfh\<rparr>)
         | (Inr pgs, lfh) \<Rightarrow>
             (let st3 = emit ''Clearing previous pages'' (Some 0.35) (st2\<lparr>last_file_hash := lfh\<rparr>);
                  st4 = commit (st3\<lparr>pages := filter (\<lambda>p. document_id p \<noteq> doc_id document)
                                                 (pages st3)\<rparr>);
                  document' = document\<lparr>total_pages := Some (length pgs),
                                        indexed_at := utcnow env\<rparr>;
                  st5 = commit (st4\<lparr>documents := update_document document' (documents st4)\<rparr>);
                  st6 = emit ''Storing pages'' (Some 0.45) st5;
                  st7 = commit (store_pages (doc_id document') pgs st6)
              in index_vectors env path base callback document' pgs st7))"

text \<open>\<^verbatim>\<open>index_document\<close>. An error is returned together with the state reached when it
  was raised; the session has nothing uncommitted at any of these points.\<close>

definition index_document ::
  "('d, 'v) env \<Rightarrow> filesystem \<Rightarrow> string \<Rightarrow> string \<Rightarrow> progress_callback option \<Rightarrow> 'v state
     \<Rightarrow> (error + document) \<times> 'v state" where
  "index_document env fs path base callback st0 =
     (let emit = progress_emitter callback
      in if \<not> path_exists fs path \<or> \<not> is_file fs path
         then (Inl (FileNotFoundError (''File not found: '' @ path)), st0)
         else
           (let st1 = emit (''Starting indexing for '' @ path_name path) (Some 0) st0
            in case compute_file_hash (sha256 env) fs path 8192 of
                 Inl e \<Rightarrow> (Inl e, st1)
               | Inr file_hash' \<Rightarrow>
                   (let st2 = emit ''Computed file hash'' (Some 0.05) st1
                    in case get_or_create_document env path base file_hash' st2 of
                         (document, st3) \<Rightarrow>
                           if file_hash document = file_hash' \<and> total_pages document \<noteq> None
                           then (Inr document,
                                 emit (''No changes detected for '' @ path_name path
                                         @ ''. Skipping.'') (Some 1) st3)
                           else reindex env fs path base callback document st3)))"

text \<open>
  \<^verbatim>\<open>scan_and_index_folder\<close>. \<^verbatim>\<open>iterdir\<close> gives the entries of the directory, which
  \<^verbatim>\<open>mkdir\<close> has created when it was missing. The entries share their parent, so sorting
  the paths is sorting the strings. \<open>nested_callback\<close> is the callback the loop passes
  to \<^verbatim>\<open>index_document\<close>; \<open>scan_step\<close> is one iteration of the loop, with the result
  of \<^verbatim>\<open>index_document\<close> for the file.
\<close>

definition supported_extensions :: "string list" where
  "supported_extensions = [''.pdf'', ''.txt'', ''.md'']"

definition iterdir :: "filesystem \<Rightarrow> string \<Rightarrow> string list" where
  "iterdir fs dir = filter (\<lambda>p. path_parent p = dir) (map fst fs)"

definition nested_callback :: "progress_callback option \<Rightarrow> nat \<Rightarrow> nat \<Rightarrow> progress_callback" where
  "nested_callback callback total_count idx message progress =
     (let overall_progress =
            (if progress \<noteq> None \<and> total_count \<noteq> 0
             then Some ((real idx - 1 + the progress) / real total_count)
             else if total_count \<noteq> 0 then Some ((real idx - 1) / real total_count)
             else Some 1)
      in case callback of None \<Rightarrow> [] | Some cb \<Rightarrow> cb message overall_progress)"

definition scan_step ::
  "('d, 'v) env \<Rightarrow> filesystem \<Rightarrow> string \<Rightarrow> progress_callback option \<Rightarrow> nat \<Rightarrow> nat \<Rightarrow> string
     \<Rightarrow> 'v state \<Rightarrow> (error + document) \<times> 'v state" where
  "scan_step env fs base callback total_count idx file_path st0 =
     (let emit = progress_emitter callback;
          st1 = emit (''Indexing '' @ path_name file_path @ '' ('' @ str_nat idx @ ''/''
                        @ str_nat total_count @ '')'')
                  (if total_count \<noteq> 0 then Some ((real idx - 1) / real total_count) else None) st0
      in case index_document env fs file_path base
                (Some (nested_callback callback total_count idx)) st1 of
           (Inr document, st2) \<Rightarrow> (Inr document, st2)
         | (Inl exc, st2) \<Rightarrow>
             (Inl exc,
              emit (''Failed to index '' @ path_name file_path @ '': '' @ exc_str exc) None st2))"

fun scan_loop ::
  "('d, 'v) env \<Rightarrow> filesystem \<Rightarrow> string \<Rightarrow> progress_callback option \<Rightarrow> nat \<Rightarrow> nat \<Rightarrow> string list
     \<Rightarrow> document list \<Rightarrow> 'v state \<Rightarrow> document list \<times> 'v state" where
  "scan_loop env fs base callback total_count idx [] indexed_documents st = (indexed_documents, st)"
| "scan_loop env fs base callback total_count idx (file_path # rest) indexed_documents st =
     (case scan_step env fs base callback total_count idx file_path st of
        (Inr document, st') \<Rightarrow>
          scan_loop env fs base callback total_count (idx + 1) rest (indexed_documents @ [document]) st'
      | (Inl exc, st') \<Rightarrow>
          scan_loop env fs base callback total_count (idx + 1) rest indexed_documents st')"

definition scan_files :: "filesystem \<Rightarrow> string \<Rightarrow> string \<Rightarrow> string list" where
  "scan_files fs base_data_dir base =
     sort (filter (\<lambda>p. is_file fs p \<and> lower (path_suffix p) \<in> set supported_extensions)
             (iterdir fs (base_data_dir @ ''/'' @ base @ ''/documents'')))"

definition scan_and_index_folder ::
  "('d, 'v) env \<Rightarrow> filesystem \<Rightarrow> string \<Rightarrow> string \<Rightarrow> progress_callback option \<Rightarrow> 'v state
     \<Rightarrow> document list \<times> 'v state" where
  "scan_and_index_folder env fs base_data_dir base callback st0 =
     (let emit = progress_emitter callback;
          files = scan_files fs base_data_dir base;
          total_count = length files;
          st1 = emit (''Found '' @ str_nat total_count @ '' file(s) to evaluate in ''
                        @ base_data_dir @ ''/'' @ base @ ''/documents'')
                  (Some (if total_count \<noteq> 0 then 0 else 1)) st0
      in case scan_loop env fs base callback total_count 1 files [] st1 of
           (indexed_documents, st2) \<Rightarrow>
             (indexed_documents,
              if total_count \<noteq> 0 then emit ''Folder scan complete'' (Some 1) st2 else st2))"

section \<open>Notions used to state the properties\<close>

text \<open>The pages stored for a document: the rows of \<^verbatim>\<open>pages\<close> with its id.\<close>

definition pages_of :: "nat \<Rightarrow> page list \<Rightarrow> page list" where
  "pages_of doc pgs = filter (\<lambda>p. document_id p = doc) pgs"

text \<open>
  The results of \<^verbatim>\<open>index_document\<close> for the files of a scan, in the order of the
  loop, each with its file; the documents among them; and the messages that the
  \<^verbatim>\<open>except\<close> branch of the loop reports for the errors among them.
\<close>

fun file_outcomes ::
  "('d, 'v) env \<Rightarrow> filesystem \<Rightarrow> string \<Rightarrow> progress_callback option \<Rightarrow> nat \<Rightarrow> nat \<Rightarrow> string list
     \<Rightarrow> 'v state \<Rightarrow> (string \<times> (error + document)) list" where
  "file_outcomes env fs base callback total_count idx [] st = []"
| "file_outcomes env fs base callback total_count idx (file_path # rest) st =
     (case scan_step env fs base callback total_count idx file_path st of
        (outcome, st') \<Rightarrow>
          (file_path, outcome)
            # file_outcomes env fs base callback total_count (idx + 1) rest st')"

definition scan_outcomes ::
  "('d, 'v) env \<Rightarrow> filesystem \<Rightarrow> string \<Rightarrow> string \<Rightarrow> progress_callback option \<Rightarrow> 'v state
     \<Rightarrow> (string \<times> (error + document)) list" where
  "scan_outcomes env fs base_data_dir base callback st0 =
     (let files = scan_files fs base_data_dir base;
          total_count = length files;
          st1 = progress_emitter callback
                  (''Found '' @ str_nat total_count @ '' file(s) to evaluate in ''
                     @ base_data_dir @ ''/'' @ base @ ''/documents'')
                  (Some (if total_count \<noteq> 0 then 0 else 1)) st0
      in file_outcomes env fs base callback total_count 1 files st1)"

fun successes :: "(string \<times> (error + document)) list \<Rightarrow> document list" where
  "successes [] = []"
| "successes ((file_path, Inr document) # rest) = document # successes rest"
| "successes ((file_path, Inl exc) # rest) = successes rest"

fun failure_messages :: "(string \<times> (error + document)) list \<Rightarrow> string list" where
  "failure_messages [] = []"
| "failure_messages ((file_path, Inr document) # rest) = failure_messages rest"
| "failure_messages ((file_path, Inl exc) # rest) =
     (''Failed to index '' @ path_name file_path @ '': '' @ exc_str exc) # failure_messages rest"

text \<open>The messages among progress events that were reported with unknown progress.\<close>

definition unknown_progress :: "(string \<times> real option) list \<Rightarrow> string list" where
  "unknown_progress events = map fst (filter (\<lambda>event. snd event = None) events)"

text \<open>The state of a knowledge base that has never been used.\<close>

definition empty_state :: "'v state" where
  "empty_state =
     \<lparr>documents = [], pages = [], commits = [], collection = None, last_file_hash = None,
      reported = [], calls = []\<rparr>"

section \<open>Example inputs\<close>

text \<open>
  A small environment for running the model on concrete inputs: the digest is the content
  itself, the PDF reader knows a few files by their bytes, text is decoded as it is, and
  the embedding of a text is its length. The client refuses a write to a collection that
  does not exist and, by Qdrant's rule that a point id is an unsigned integer or a UUID,
  a point id with a colon; any other point is stored under its id.
\<close>

definition example_pdf_reader :: "string \<Rightarrow> error + page_extract list" where
  "example_pdf_reader bs =
     (if bs = ''pdf-v1'' then Inr [Extracted (Some ''A.''), Extracted (Some ''B.'')]
      else if bs = ''pdf-v2'' then Inr [Extracted (Some ''A.'')]
      else if bs = ''pdf-scan'' then Inr [ExtractFault, Extracted (Some '' C. '')]
      else if bs = ''pdf-blank'' then Inr [ExtractFault]
      else if bs = ''pdf-bad-value'' then Inl (ValueError ''invalid literal'')
      else Inl (OtherError ''PdfReadError''))"

definition example_upsert ::
  "(string \<times> nat point) list option \<Rightarrow> (string \<times> nat point) list
     \<Rightarrow> error + (string \<times> nat point) list" where
  "example_upsert stored points =
     (case stored of
        None \<Rightarrow> Inl (ValueError ''Collection not found'')
      | Some old \<Rightarrow>
          if list_ex (\<lambda>entry. CHR '':'' \<in> set (fst entry)) points
          then Inl (ValueError ''Point id is not a valid UUID'')
          else Inr (fold (\<lambda>entry. AList.update (fst entry) (snd entry)) points old))"

definition example_env :: "(string, nat) env" where
  "example_env =
     \<lparr>sha256 = \<lparr>new = [], update = (\<lambda>digest block. digest @ block), hexdigest = (\<lambda>digest. digest)\<rparr>,
      pdf_reader = example_pdf_reader,
      decode_text = (\<lambda>bs. bs),
      embed = (\<lambda>texts. Inr (map length texts)),
      upsert = example_upsert,
      utcnow = 0\<rparr>"

text \<open>A PDF of two pages is indexed into an unused knowledge base.\<close>

definition example_first_index :: "(error + document) \<times> nat state" where
  "example_first_index =
     index_document example_env [(''/kb/d.pdf'', File ''pdf-v1'')] ''/kb/d.pdf'' ''kb'' None
       empty_state"

text \<open>
  A knowledge base that holds a document of two pages and one vector for its second page;
  then the file changes to a PDF of one page without extractable text and is indexed
  again.
\<close>

definition example_stale_point :: "nat point" where
  "example_stale_point =
     \<lparr>p_vector = 2, p_text = ''B.'',
      p_meta = \<lparr>m_id = ''00000000-0000-0000-0000-000000000002'', m_document_id = 1,
                m_document_path = ''/kb/d.pdf'', m_filename = ''d.pdf'', m_page_num = 2,
                m_chunk_index = 1, m_page_chunk_index = 0, m_start_char = 0, m_end_char = 2,
                m_token_count = 2\<rparr>\<rparr>"

definition example_indexed_state :: "nat state" where
  "example_indexed_state =
     \<lparr>documents = [\<lparr>doc_id = 1, filename = ''d.pdf'', doc_path = ''/kb/d.pdf'',
                     base_name = ''kb'', total_pages = Some 2, file_hash = ''pdf-v1'',
                     indexed_at = 0\<rparr>],
      pages = [\<lparr>document_id = 1, page_num = 1, content = ''A.'', char_count = 2\<rparr>,
               \<lparr>document_id = 1, page_num = 2, content = ''B.'', char_count = 2\<rparr>],
      commits = [],
      collection = Some [(''00000000-0000-0000-0000-000000000002'', example_stale_point)],
      last_file_hash = None, reported = [], calls = []\<rparr>"

definition example_reindex :: "(error + document) \<times> nat state" where
  "example_reindex =
     index_document example_env [(''/kb/d.pdf'', File ''pdf-blank'')] ''/kb/d.pdf'' ''kb'' None
       example_indexed_state"

text \<open>A PDF of one page without extractable text is indexed into an unused knowledge
  base.\<close>

definition example_blank_index :: "(error + document) \<times> nat state" where
  "example_blank_index =
     index_document example_env [(''/kb/s.pdf'', File ''pdf-blank'')] ''/kb/s.pdf'' ''kb'' None
       empty_state"

text \<open>
  A documents directory with two supported files, which hold no text, and one unsupported
  file, and the scan of it; and a directory where a supported file cannot be parsed.
\<close>

definition example_folder :: filesystem where
  "example_folder =
     [(''/data/kb/documents/b.md'', File []),
      (''/data/kb/documents/c.docx'', File ''C here.''),
      (''/data/kb/documents/a.txt'', File '' '')]"

definition example_scan :: "document list \<times> nat state" where
  "example_scan =
     scan_and_index_folder example_env example_folder ''/data'' ''kb'' (Some observer) empty_state"

definition example_broken_folder :: filesystem where
  "example_broken_folder =
     [(''/data/kb/documents/b.md'', File []),
      (''/data/kb/documents/z.pdf'', File ''garbage''),
      (''/data/kb/documents/a.txt'', File '' '')]"

section \<open>Properties of the chunker\<close>

lemma finditer_Nil: "dropWhile is_terminator cs = [] \<Longrightarrow> finditer pos cs = []"
  by (simp add: finditer.simps [of pos cs] del: dropWhile_eq_Nil_conv)

lemma finditer_Cons:
  assumes "dropWhile is_terminator cs = c # rest"
  shows "finditer pos cs =
    (pos + int (length (takeWhile is_terminator cs)),
     pos + int (length (takeWhile is_terminator cs))
       + int (Suc (length (takeWhile (\<lambda>x. \<not> is_terminator x) rest)))
       + int (length (takeWhile is_terminator (dropWhile (\<lambda>x. \<not> is_terminator x) rest))),
     c # takeWhile (\<lambda>x. \<not> is_terminator x) rest
       @ takeWhile is_terminator (dropWhile (\<lambda>x. \<not> is_terminator x) rest))
    # finditer
        (pos + int (length (takeWhile is_terminator cs))
          + int (Suc (length (takeWhile (\<lambda>x. \<not> is_terminator x) rest)))
          + int (length (takeWhile is_terminator (dropWhile (\<lambda>x. \<not> is_terminator x) rest))))
        (dropWhile is_terminator (dropWhile (\<lambda>x. \<not> is_terminator x) rest))"
  by (simp add: finditer.simps [of pos cs] assms Let_def)

lemma length_split_run:
  assumes "dropWhile is_terminator cs = c # rest"
  shows "length cs =
     length (takeWhile is_terminator cs)
     + Suc (length (takeWhile (\<lambda>x. \<not> is_terminator x) rest))
     + length (takeWhile is_terminator (dropWhile (\<lambda>x. \<not> is_terminator x) rest))
     + length (dropWhile is_terminator (dropWhile (\<lambda>x. \<not> is_terminator x) rest))"
proof -
  have "length cs = length (takeWhile is_terminator cs) + length (dropWhile is_terminator cs)"
    by (metis length_append takeWhile_dropWhile_id)
  moreover have "length rest =
      length (takeWhile (\<lambda>x. \<not> is_terminator x) rest)
      + length (dropWhile (\<lambda>x. \<not> is_terminator x) rest)"
    by (metis length_append takeWhile_dropWhile_id)
  moreover have "length (dropWhile (\<lambda>x. \<not> is_terminator x) rest) =
      length (takeWhile is_terminator (dropWhile (\<lambda>x. \<not> is_terminator x) rest))
      + length (dropWhile is_terminator (dropWhile (\<lambda>x. \<not> is_terminator x) rest))"
    by (metis length_append takeWhile_dropWhile_id)
  ultimately show ?thesis using assms by simp
qed

lemma finditer_bounds:
  "(s, e, g) \<in> set (finditer pos cs) \<Longrightarrow> pos \<le> s \<and> s < e \<and> e \<le> pos + int (length cs)"
proof (induction pos cs arbitrary: s e g rule: finditer.induct)
  case (1 pos cs)
  show ?case
  proof (cases "dropWhile is_terminator cs")
    case Nil
    with "1.prems" show ?thesis by (simp add: finditer_Nil)
  next
    case (Cons c rest)
    let ?start = "pos + int (length (takeWhile is_terminator cs))"
    let ?stop = "?start + int (Suc (length (takeWhile (\<lambda>x. \<not> is_terminator x) rest)))
       + int (length (takeWhile is_terminator (dropWhile (\<lambda>x. \<not> is_terminator x) rest)))"
    let ?tail = "dropWhile is_terminator (dropWhile (\<lambda>x. \<not> is_terminator x) rest)"
    note len = length_split_run [OF Cons]
    have ih: "(s, e, g) \<in> set (finditer ?stop ?tail)
        \<Longrightarrow> ?stop \<le> s \<and> s < e \<and> e \<le> ?stop + int (length ?tail)"
      using "1.IH" [OF Cons refl refl refl refl refl, of s e g] by simp
    from "1.prems" have "(s = ?start \<and> e = ?stop) \<or> (s, e, g) \<in> set (finditer ?stop ?tail)"
      unfolding finditer_Cons [OF Cons, of pos] by auto
    then show ?thesis
    proof
      assume "s = ?start \<and> e = ?stop"
      then show ?thesis using len by simp
    next
      assume "(s, e, g) \<in> set (finditer ?stop ?tail)"
      from ih [OF this] show ?thesis using len by simp
    qed
  qed
qed

lemma finditer_sorted: "sorted (map fst (finditer pos cs))"
proof (induction pos cs rule: finditer.induct)
  case (1 pos cs)
  show ?case
  proof (cases "dropWhile is_terminator cs")
    case Nil
    then show ?thesis by (simp add: finditer_Nil)
  next
    case (Cons c rest)
    let ?start = "pos + int (length (takeWhile is_terminator cs))"
    let ?stop = "?start + int (Suc (length (takeWhile (\<lambda>x. \<not> is_terminator x) rest)))
       + int (length (takeWhile is_terminator (dropWhile (\<lambda>x. \<not> is_terminator x) rest)))"
    let ?tail = "dropWhile is_terminator (dropWhile (\<lambda>x. \<not> is_terminator x) rest)"
    have ih: "sorted (map fst (finditer ?stop ?tail))"
      using "1.IH" [OF Cons refl refl refl refl refl] by simp
    have "?start \<le> fst m" if "m \<in> set (finditer ?stop ?tail)" for m
      using finditer_bounds [of "fst m" "fst (snd m)" "snd (snd m)" ?stop ?tail] that by simp
    with ih show ?thesis
      unfolding finditer_Cons [OF Cons, of pos] by auto
  qed
qed


lemma split_into_sentences_sorted: "sorted (map s_start (split_into_sentences txt))"
proof -
  let ?f = "\<lambda>(start, stop, grp).
              let sentence_text = strip grp
              in if sentence_text = [] then []
                 else [\<lparr>s_text = sentence_text, s_start = start, s_end = stop,
                        s_tokens = estimate_tokens sentence_text\<rparr>]"
  have "map s_start (concat (map ?f ms)) = map fst (filter (\<lambda>(a, b, g). strip g \<noteq> []) ms)" for ms
    by (induction ms) (auto simp: Let_def)
  then have "sorted (map s_start (concat (map ?f (finditer 0 txt))))"
    by (simp add: finditer_sorted sorted_filter)
  then show ?thesis
    by (simp add: split_into_sentences_def Let_def)
qed

lemma split_into_sentences_bounds:
  assumes "s \<in> set (split_into_sentences txt)"
  shows "0 \<le> s_start s \<and> s_start s \<le> s_end s \<and> s_end s \<le> int (length txt)"
proof -
  let ?f = "\<lambda>(start, stop, grp).
              let sentence_text = strip grp
              in if sentence_text = [] then []
                 else [\<lparr>s_text = sentence_text, s_start = start, s_end = stop,
                        s_tokens = estimate_tokens sentence_text\<rparr>]"
  from assms consider
      (fallback) "s_start s = 0" "s_end s = int (length txt)"
    | (matched) "s \<in> set (concat (map ?f (finditer 0 txt)))"
    by (auto simp: split_into_sentences_def Let_def split: if_splits)
  then show ?thesis
  proof cases
    case fallback
    then show ?thesis by simp
  next
    case matched
    then obtain a b g where m: "(a, b, g) \<in> set (finditer 0 txt)"
      and s: "s_start s = a" "s_end s = b"
      by (auto simp: Let_def split: if_splits)
    from finditer_bounds [OF m] s show ?thesis by simp
  qed
qed

lemma split_into_sentences_nonempty: "split_into_sentences txt \<noteq> []"
  by (simp add: split_into_sentences_def Let_def)

lemma overlap_loop_suffix:
  "\<exists>ys zs. xs = ys @ zs \<and> fst (overlap_loop overlap xs acc t) = rev ys @ acc"
proof (induction xs arbitrary: acc t)
  case Nil
  then show ?case by simp
next
  case (Cons x xs)
  show ?case
  proof (cases "t + s_tokens x \<ge> overlap")
    case True
    then have "fst (overlap_loop overlap (x # xs) acc t) = rev [x] @ acc"
      by simp
    then show ?thesis by (metis append_Cons append_Nil)
  next
    case False
    from Cons.IH [of "x # acc" "t + s_tokens x"]
    obtain ys zs where "xs = ys @ zs"
      and "fst (overlap_loop overlap xs (x # acc) (t + s_tokens x)) = rev ys @ x # acc"
      by blast
    with False have "x # xs = (x # ys) @ zs
        \<and> fst (overlap_loop overlap (x # xs) acc t) = rev (x # ys) @ acc"
      by (simp add: Let_def)
    then show ?thesis by blast
  qed
qed

lemma apply_overlap_suffix:
  "\<exists>pre. sentences = pre @ fst (apply_overlap sentences overlap)"
proof -
  from overlap_loop_suffix [of "rev sentences" overlap "[]" 0]
  obtain ys zs where r: "rev sentences = ys @ zs"
    and f: "fst (apply_overlap sentences overlap) = rev ys"
    by (auto simp: apply_overlap_def)
  from r have "sentences = rev zs @ rev ys"
    by (metis rev_append rev_rev_ident)
  with f show ?thesis by metis
qed

lemma finalize_chunk_bounds:
  assumes ne: "current \<noteq> []"
    and srt: "sorted (map s_start current)"
    and bnd: "\<forall>s\<in>set current. 0 \<le> s_start s \<and> s_start s \<le> s_end s \<and> s_end s \<le> L"
  shows "0 \<le> start_char (finalize_chunk current i)
       \<and> start_char (finalize_chunk current i) \<le> end_char (finalize_chunk current i)
       \<and> end_char (finalize_chunk current i) \<le> L"
proof -
  from ne obtain x xs where c: "current = x # xs" by (cases current) auto
  have l: "last current \<in> set current" using ne by simp
  have "s_start x \<le> s_start (last current)"
    using srt l unfolding c by auto
  moreover have "x \<in> set current" by (simp add: c)
  ultimately show ?thesis
    using bnd l by (auto simp: finalize_chunk_def c simp del: last.simps)
qed

lemma chunk_loop_bounds:
  assumes "sorted (map s_start (current @ ss))"
    and "\<forall>s\<in>set (current @ ss). 0 \<le> s_start s \<and> s_start s \<le> s_end s \<and> s_end s \<le> L"
    and "c \<in> set (chunk_loop chunk_size overlap ss chunks current t)"
  shows "c \<in> set chunks \<or> (0 \<le> start_char c \<and> start_char c \<le> end_char c \<and> end_char c \<le> L)"
  using assms
proof (induction ss arbitrary: chunks current t)
  case Nil
  show ?case
  proof (cases "current = []")
    case True
    with Nil show ?thesis by simp
  next
    case False
    with Nil have "c \<in> set chunks \<or> c = finalize_chunk current (int (length chunks))"
      by auto
    moreover from Nil have "sorted (map s_start current)"
      "\<forall>s\<in>set current. 0 \<le> s_start s \<and> s_start s \<le> s_end s \<and> s_end s \<le> L"
      by simp_all
    ultimately show ?thesis
      using finalize_chunk_bounds [OF False, of L "int (length chunks)"] by auto
  qed
next
  case (Cons s ss)
  show ?case
  proof (cases "current \<noteq> [] \<and> t + s_tokens s > chunk_size")
    case True
    obtain cur' t' where ao: "apply_overlap current overlap = (cur', t')"
      by (cases "apply_overlap current overlap")
    from apply_overlap_suffix [of current overlap] ao
    obtain pre where pre: "current = pre @ cur'" by auto
    have srt: "sorted (map s_start ((cur' @ [s]) @ ss))"
      using Cons.prems(1) unfolding pre by (simp add: sorted_append)
    have bnd: "\<forall>x\<in>set ((cur' @ [s]) @ ss). 0 \<le> s_start x \<and> s_start x \<le> s_end x \<and> s_end x \<le> L"
      using Cons.prems(2) unfolding pre by auto
    have mem: "c \<in> set (chunk_loop chunk_size overlap ss
                 (chunks @ [finalize_chunk current (int (length chunks))])
                 (cur' @ [s]) (t' + s_tokens s))"
      using Cons.prems(3) True ao by simp
    from Cons.IH [OF srt bnd mem]
    have "c \<in> set chunks \<or> c = finalize_chunk current (int (length chunks))
        \<or> (0 \<le> start_char c \<and> start_char c \<le> end_char c \<and> end_char c \<le> L)"
      by auto
    moreover have "sorted (map s_start current)"
      using Cons.prems(1) by (simp add: sorted_append)
    moreover have "\<forall>x\<in>set current. 0 \<le> s_start x \<and> s_start x \<le> s_end x \<and> s_end x \<le> L"
      using Cons.prems(2) by simp
    ultimately show ?thesis
      using finalize_chunk_bounds [of current L "int (length chunks)"] True by auto
  next
    case False
    have mem: "c \<in> set (chunk_loop chunk_size overlap ss chunks (current @ [s]) (t + s_tokens s))"
      using Cons.prems(3) False by auto
    show ?thesis
      using Cons.IH [of "current @ [s]" chunks "t + s_tokens s"] Cons.prems(1,2) mem by simp
  qed
qed

text \<open>
  C6. For every text and every chunk that \<^verbatim>\<open>chunk\<close> returns for it, the start offset is
  at most the end offset and both lie between 0 and the length of the text, whatever the
  chunk size and the overlap are.
\<close>

theorem chunk_offsets_within_text:
  "\<forall>c \<in> set (chunk txt chunk_size overlap).
     0 \<le> start_char c \<and> start_char c \<le> end_char c \<and> end_char c \<le> int (length txt)"
proof
  fix c
  assume c: "c \<in> set (chunk txt chunk_size overlap)"
  then have ne: "txt \<noteq> []" by (auto simp: chunk_def split: if_splits)
  with c have mem: "c \<in> set (chunk_loop chunk_size overlap (split_into_sentences txt) [] [] 0)"
    by (simp add: chunk_def)
  have "c \<in> set [] \<or> (0 \<le> start_char c \<and> start_char c \<le> end_char c
      \<and> end_char c \<le> int (length txt))"
  proof (rule chunk_loop_bounds [OF _ _ mem])
    show "sorted (map s_start ([] @ split_into_sentences txt))"
      by (simp add: split_into_sentences_sorted)
    show "\<forall>s\<in>set ([] @ split_into_sentences txt).
        0 \<le> s_start s \<and> s_start s \<le> s_end s \<and> s_end s \<le> int (length txt)"
      using split_into_sentences_bounds by simp
  qed
  then show "0 \<le> start_char c \<and> start_char c \<le> end_char c \<and> end_char c \<le> int (length txt)"
    by simp
qed

theorem chunk_offsets_within_text_witness:
  "chunk ''A. B.'' 2 0 ! 1 \<in> set (chunk ''A. B.'' 2 0)
   \<and> 0 \<le> start_char (chunk ''A. B.'' 2 0 ! 1)
   \<and> start_char (chunk ''A. B.'' 2 0 ! 1) \<le> end_char (chunk ''A. B.'' 2 0 ! 1)
   \<and> end_char (chunk ''A. B.'' 2 0 ! 1) \<le> int (length ''A. B.'')"
proof -
  have "length (chunk ''A. B.'' 2 0) = 2" by code_simp
  then have m: "chunk ''A. B.'' 2 0 ! 1 \<in> set (chunk ''A. B.'' 2 0)" by simp
  from chunk_offsets_within_text [of "''A. B.''" 2 0, rule_format, OF m] m
  show ?thesis by simp
qed

lemma dropWhile_fixed: "xs = [] \<or> \<not> P (hd xs) \<Longrightarrow> dropWhile P xs = xs"
  by (cases xs) auto

lemma dropWhile_head: "dropWhile P xs = [] \<or> \<not> P (hd (dropWhile P xs))"
  by (metis hd_dropWhile)

lemma strip_strip: "strip (strip s) = strip s"
proof -
  let ?t = "dropWhile is_space s"
  let ?u = "rev (dropWhile is_space (rev ?t))"
  have "?t = ?u @ rev (takeWhile is_space (rev ?t))"
    by (metis rev_append rev_rev_ident takeWhile_dropWhile_id)
  then have "?u = [] \<or> hd ?u = hd ?t"
    by (metis hd_append2)
  moreover have "?t = [] \<Longrightarrow> ?u = []" by (simp del: dropWhile_eq_Nil_conv)
  ultimately have "?u = [] \<or> \<not> is_space (hd ?u)"
    using dropWhile_head [of is_space s] by metis
  then have 1: "dropWhile is_space ?u = ?u"
    by (rule dropWhile_fixed)
  have 2: "dropWhile is_space (dropWhile is_space (rev ?t)) = dropWhile is_space (rev ?t)"
    by (rule dropWhile_fixed) (rule dropWhile_head)
  show ?thesis
    unfolding strip_def 1 by (simp add: 2)
qed

lemma split_into_sentences_stripped:
  "s \<in> set (split_into_sentences txt) \<Longrightarrow> strip (s_text s) = s_text s"
  by (auto simp: split_into_sentences_def Let_def strip_strip split: if_splits)

lemma apply_overlap_length:
  "length (fst (apply_overlap sentences overlap)) \<le> length sentences"
proof -
  from apply_overlap_suffix [of sentences overlap]
  obtain pre where "sentences = pre @ fst (apply_overlap sentences overlap)" ..
  then have "length sentences = length pre + length (fst (apply_overlap sentences overlap))"
    by (metis length_append)
  then show ?thesis by simp
qed

lemma chunk_loop_length:
  "length (chunk_loop chunk_size overlap ss chunks current t)
     \<le> length chunks + length ss + (if current = [] then 0 else 1)"
proof (induction ss arbitrary: chunks current t)
  case Nil
  show ?case by simp
next
  case (Cons s ss)
  show ?case
  proof (cases "current \<noteq> [] \<and> t + s_tokens s > chunk_size")
    case True
    obtain cur' t' where ao: "apply_overlap current overlap = (cur', t')"
      by (cases "apply_overlap current overlap")
    show ?thesis
      using Cons.IH [of "chunks @ [finalize_chunk current (int (length chunks))]"
          "cur' @ [s]" "t' + s_tokens s"] True ao
      by simp
  next
    case False
    show ?thesis
      using Cons.IH [of chunks "current @ [s]" "t + s_tokens s"] False
      by (auto split: if_splits)
  qed
qed

lemma chunk_loop_keeps_chunks:
  "set chunks \<subseteq> set (chunk_loop chunk_size overlap ss chunks current t)"
proof (induction ss arbitrary: chunks current t)
  case Nil
  then show ?case by auto
next
  case (Cons s ss)
  show ?case
  proof (cases "current \<noteq> [] \<and> t + s_tokens s > chunk_size")
    case True
    obtain cur' t' where ao: "apply_overlap current overlap = (cur', t')"
      by (cases "apply_overlap current overlap")
    from Cons [of "chunks @ [finalize_chunk current (int (length chunks))]" "cur' @ [s]"
        "t' + s_tokens s"] True ao
    show ?thesis by auto
  next
    case False
    from Cons [of chunks "current @ [s]" "t + s_tokens s"] False
    show ?thesis by auto
  qed
qed

lemma chunk_loop_emits_every_sentence:
  assumes "x \<in> set current \<or> x \<in> set ss"
  shows "\<exists>group index. x \<in> set group
           \<and> finalize_chunk group index \<in> set (chunk_loop chunk_size overlap ss chunks current t)"
  using assms
proof (induction ss arbitrary: chunks current t)
  case Nil
  then have "x \<in> set current" and "current \<noteq> []" by auto
  then show ?case by auto
next
  case (Cons s ss)
  show ?case
  proof (cases "current \<noteq> [] \<and> t + s_tokens s > chunk_size")
    case True
    obtain cur' t' where ao: "apply_overlap current overlap = (cur', t')"
      by (cases "apply_overlap current overlap")
    let ?chunks = "chunks @ [finalize_chunk current (int (length chunks))]"
    have eq: "chunk_loop chunk_size overlap (s # ss) chunks current t
        = chunk_loop chunk_size overlap ss ?chunks (cur' @ [s]) (t' + s_tokens s)"
      using True ao by simp
    show ?thesis
    proof (cases "x \<in> set current")
      case True
      have "finalize_chunk current (int (length chunks)) \<in> set ?chunks" by simp
      with chunk_loop_keeps_chunks [of ?chunks chunk_size overlap ss "cur' @ [s]" "t' + s_tokens s"]
      have "finalize_chunk current (int (length chunks))
          \<in> set (chunk_loop chunk_size overlap (s # ss) chunks current t)"
        unfolding eq by blast
      with True show ?thesis by blast
    next
      case False
      with Cons.prems have "x \<in> set (cur' @ [s]) \<or> x \<in> set ss" by auto
      from Cons.IH [OF this, of ?chunks "t' + s_tokens s"] show ?thesis
        unfolding eq .
    qed
  next
    case False
    then have eq: "chunk_loop chunk_size overlap (s # ss) chunks current t
        = chunk_loop chunk_size overlap ss chunks (current @ [s]) (t + s_tokens s)"
      by auto
    from Cons.prems have "x \<in> set (current @ [s]) \<or> x \<in> set ss" by auto
    from Cons.IH [OF this, of chunks "t + s_tokens s"] show ?thesis
      unfolding eq .
  qed
qed

text \<open>
  C9. \<^verbatim>\<open>chunk\<close> is a total function: the sentence scan terminates by the measure
  given with \<^const>\<open>finditer\<close>, and the loops over the sentences and over the closed chunk
  are structural recursions. The overlap seeding returns at most the sentences of the chunk
  just closed, whatever the overlap and the chunk size are, and a text never yields more
  chunks than it has sentences. The empty text gives no chunk. Every sentence of a
  non-empty text, whatever its token estimate, is among the sentences of some emitted
  chunk, which is built from whole sentences; and a text of one sentence gives exactly one
  chunk, with that sentence's text, offsets and token estimate.
\<close>

theorem chunk_terminates_bounded:
  "chunk [] chunk_size overlap = []
   \<and> length (fst (apply_overlap sentences overlap)) \<le> length sentences
   \<and> length (chunk txt chunk_size overlap) \<le> length (split_into_sentences txt)
   \<and> (txt \<noteq> [] \<and> x \<in> set (split_into_sentences txt) \<longrightarrow>
        (\<exists>group index. x \<in> set group
           \<and> finalize_chunk group index \<in> set (chunk txt chunk_size overlap)))
   \<and> (txt \<noteq> [] \<and> split_into_sentences txt = [s] \<longrightarrow>
        chunk txt chunk_size overlap =
          [\<lparr>c_text = s_text s, c_index = 0, start_char = s_start s, end_char = s_end s,
            token_count = s_tokens s\<rparr>])"
proof (intro conjI impI)
  show "chunk [] chunk_size overlap = []" by (simp add: chunk_def)
  show "length (fst (apply_overlap sentences overlap)) \<le> length sentences"
    by (rule apply_overlap_length)
  show "length (chunk txt chunk_size overlap) \<le> length (split_into_sentences txt)"
    using chunk_loop_length [of chunk_size overlap "split_into_sentences txt" "[]" "[]" 0]
    by (simp add: chunk_def)
next
  assume a: "txt \<noteq> [] \<and> x \<in> set (split_into_sentences txt)"
  then have "x \<in> set [] \<or> x \<in> set (split_into_sentences txt)" by simp
  from chunk_loop_emits_every_sentence [OF this, of chunk_size overlap "[]" 0] a
  show "\<exists>group index. x \<in> set group
           \<and> finalize_chunk group index \<in> set (chunk txt chunk_size overlap)"
    by (simp add: chunk_def)
next
  assume a: "txt \<noteq> [] \<and> split_into_sentences txt = [s]"
  then have "s \<in> set (split_into_sentences txt)" by simp
  then have "strip (s_text s) = s_text s" by (rule split_into_sentences_stripped)
  with a show "chunk txt chunk_size overlap =
          [\<lparr>c_text = s_text s, c_index = 0, start_char = s_start s, end_char = s_end s,
            token_count = s_tokens s\<rparr>]"
    by (simp add: chunk_def finalize_chunk_def)
qed

theorem chunk_terminates_bounded_witness:
  "''Hi. One two three four. Bye.'' \<noteq> []
   \<and> \<lparr>s_text = ''One two three four.'', s_start = 3, s_end = 23, s_tokens = 6\<rparr>
       \<in> set (split_into_sentences ''Hi. One two three four. Bye.'')
   \<and> (\<exists>group index.
         \<lparr>s_text = ''One two three four.'', s_start = 3, s_end = 23, s_tokens = 6\<rparr> \<in> set group
         \<and> finalize_chunk group index \<in> set (chunk ''Hi. One two three four. Bye.'' 3 5))
   \<and> map c_text (chunk ''Hi. One two three four. Bye.'' 3 5)
       = [''Hi.'', ''Hi. One two three four.'', ''One two three four. Bye.'']
   \<and> split_into_sentences ''one two three''
       = [\<lparr>s_text = ''one two three'', s_start = 0, s_end = 13, s_tokens = 4\<rparr>]
   \<and> chunk ''one two three'' 1 5 =
       [\<lparr>c_text = ''one two three'', c_index = 0, start_char = 0, end_char = 13,
         token_count = 4\<rparr>]"
proof -
  have m: "\<lparr>s_text = ''One two three four.'', s_start = 3, s_end = 23, s_tokens = 6\<rparr>
       \<in> set (split_into_sentences ''Hi. One two three four. Bye.'')"
    by code_simp
  have t: "map c_text (chunk ''Hi. One two three four. Bye.'' 3 5)
       = [''Hi.'', ''Hi. One two three four.'', ''One two three four. Bye.'']"
    by code_simp
  have h: "split_into_sentences ''one two three''
      = [\<lparr>s_text = ''one two three'', s_start = 0, s_end = 13, s_tokens = 4\<rparr>]"
    by code_simp
  have e: "\<exists>group index.
         \<lparr>s_text = ''One two three four.'', s_start = 3, s_end = 23, s_tokens = 6\<rparr> \<in> set group
         \<and> finalize_chunk group index \<in> set (chunk ''Hi. One two three four. Bye.'' 3 5)"
    using chunk_terminates_bounded [of 3 5 "[]" "''Hi. One two three four. Bye.''"
        "\<lparr>s_text = ''One two three four.'', s_start = 3, s_end = 23, s_tokens = 6\<rparr>"] m
    by simp
  have o: "chunk ''one two three'' 1 5 =
       [\<lparr>c_text = ''one two three'', c_index = 0, start_char = 0, end_char = 13,
         token_count = 4\<rparr>]"
    using chunk_terminates_bounded [of 1 5 "[]" "''one two three''" _
        "\<lparr>s_text = ''one two three'', s_start = 0, s_end = 13, s_tokens = 4\<rparr>"] h
    by simp
  from m t h e o show ?thesis by simp
qed

text \<open>
  C5. With overlap 0 the seeding loop still carries the last sentence of the closed chunk
  into the next one, since it tests the token total only after inserting a sentence. On the
  two-sentence text below with chunk size 2 the first sentence is in both chunks, so the
  chunks do not concatenate to the sentence sequence.
\<close>

theorem chunk_overlap_zero_repeats_sentence:
  "map s_text (split_into_sentences ''A. B.'') = [''A.'', ''B.'']
   \<and> map c_text (chunk ''A. B.'' 2 0) = [''A.'', ''A. B.'']"
  by code_simp

section \<open>Properties of the hash and the parser\<close>

lemma read_blocks_concat: "0 < n \<Longrightarrow> concat (read_blocks n bs) = bs"
proof (induction n bs rule: read_blocks.induct)
  case (1 chunk_size bs)
  show ?case
  proof (cases "bs = []")
    case True
    then show ?thesis by (simp add: read_blocks.simps)
  next
    case False
    with 1 have "concat (read_blocks chunk_size (drop chunk_size bs)) = drop chunk_size bs"
      by simp
    with False "1.prems" show ?thesis
      by (simp add: read_blocks.simps [of chunk_size bs])
  qed
qed

text \<open>
  C10. The hash of the parser and the hash of the indexer are the same function of the
  file: both fold the digest's update over the 8192-byte blocks of the content, and the
  blocks concatenate to the content. So the hash that a successful parse records as
  \<^verbatim>\<open>last_file_hash\<close> is the one the orchestrator computes for its skip decision.
\<close>

theorem hash_implementations_agree:
  "compute_hash sha fs path 8192 = compute_file_hash sha fs path 8192
   \<and> concat (read_blocks 8192 bs) = bs
   \<and> (parse env fs path lfh = (Inr pgs, lfh') \<longrightarrow>
        (\<exists>h. compute_file_hash (sha256 env) fs path 8192 = Inr h \<and> lfh' = Some h))"
proof (intro conjI impI)
  show "compute_hash sha fs path 8192 = compute_file_hash sha fs path 8192"
    by (simp add: compute_hash_def compute_file_hash_def)
  show "concat (read_blocks 8192 bs) = bs"
    by (rule read_blocks_concat) simp
next
  assume "parse env fs path lfh = (Inr pgs, lfh')"
  then show "\<exists>h. compute_file_hash (sha256 env) fs path 8192 = Inr h \<and> lfh' = Some h"
    by (auto simp: parse_def compute_hash_def compute_file_hash_def
             split: if_splits sum.splits)
qed

theorem hash_implementations_agree_witness:
  "parse example_env [(''/kb/a.txt'', File ''Hi.'')] ''/kb/a.txt'' None = (Inr [''Hi.''], Some ''Hi.'')
   \<and> compute_file_hash (sha256 example_env) [(''/kb/a.txt'', File ''Hi.'')] ''/kb/a.txt'' 8192
       = Inr ''Hi.''
   \<and> compute_hash (sha256 example_env) [(''/kb/a.txt'', File ''Hi.'')] ''/kb/a.txt'' 8192
       = Inr ''Hi.''"
proof -
  have p: "parse example_env [(''/kb/a.txt'', File ''Hi.'')] ''/kb/a.txt'' None
      = (Inr [''Hi.''], Some ''Hi.'')"
    by code_simp
  from hash_implementations_agree [of "sha256 example_env" "[(''/kb/a.txt'', File ''Hi.'')]"
      "''/kb/a.txt''" "[]" example_env None "[''Hi.'']" "Some ''Hi.''"] p
  show ?thesis by simp
qed





text \<open>
  C7 as stated fails: the reader of the PDF below raises a \<open>ValueError\<close>, which is an
  error of the extraction other than a missing file and an unsupported extension, and
  \<^verbatim>\<open>parse\<close> raises it again as it is, not wrapped in a \<open>RuntimeError\<close>.
\<close>

theorem parse_reraises_extraction_value_error:
  "parse_pdf example_env [(''/kb/s.pdf'', File ''pdf-bad-value'')] ''/kb/s.pdf''
     = Inl (ValueError ''invalid literal'')
   \<and> fst (parse example_env [(''/kb/s.pdf'', File ''pdf-bad-value'')] ''/kb/s.pdf'' None)
       = Inl (ValueError ''invalid literal'')
   \<and> fst (parse example_env [(''/kb/s.pdf'', File ''pdf-bad-value'')] ''/kb/s.pdf'' None)
       \<noteq> Inl (RuntimeError ''Failed to parse file /kb/s.pdf'')"
  by code_simp

section \<open>Properties of the orchestrator\<close>

lemma emit_fields [simp]:
  "documents (progress_emitter cb m p st) = documents st"
  "pages (progress_emitter cb m p st) = pages st"
  "commits (progress_emitter cb m p st) = commits st"
  "collection (progress_emitter cb m p st) = collection st"
  "last_file_hash (progress_emitter cb m p st) = last_file_hash st"
  "calls (progress_emitter cb m p st) = calls st"
  by (simp_all add: progress_emitter_def split: option.splits)

lemma emit_reported:
  "reported (progress_emitter cb m p st)
     = reported st @ (case cb of None \<Rightarrow> [] | Some f \<Rightarrow> f m p)"
  by (simp add: progress_emitter_def split: option.splits)

lemma commit_fields [simp]:
  "documents (commit st) = documents st"
  "pages (commit st) = pages st"
  "commits (commit st) = commits st @ [(documents st, pages st)]"
  "collection (commit st) = collection st"
  "last_file_hash (commit st) = last_file_hash st"
  "reported (commit st) = reported st"
  "calls (commit st) = calls st"
  by (simp_all add: commit_def)

lemma chunk_pages_loop_calls:
  "\<exists>cs. calls (snd (chunk_pages_loop path doc nps acc st)) = calls st @ cs"
proof (induction nps arbitrary: acc st)
  case Nil
  then show ?case by simp
next
  case (Cons a nps)
  obtain num t where a: "a = (num, t)" by (cases a)
  from Cons [of "chunk_page_loop path doc num (chunk t 512 50) acc"
      "st\<lparr>calls := calls st @ [ChunkCall t]\<rparr>"]
  show ?case unfolding a by auto
qed

lemma chunk_pages_calls:
  "\<exists>cs. calls (snd (chunk_pages path doc pgs st)) = calls st @ cs"
  using chunk_pages_loop_calls [of path doc "zip [1 ..< Suc (length pgs)] pgs" "([], [], 0)" st]
  by (auto simp: chunk_pages_def split: prod.splits)

lemma ensure_collection_calls [simp]: "calls (ensure_collection st) = calls st"
  by (simp add: ensure_collection_def create_collection_def split: option.splits)

lemma clear_document_vectors_eq [simp]: "clear_document_vectors base p st = Inr st"
  by (simp add: clear_document_vectors_def delete_document_chunks_def)

lemma add_documents_calls:
  "add_documents env chunks embeddings metadata st = Inr (ids, st') \<Longrightarrow> calls st' = calls st"
  by (auto simp: add_documents_def Let_def split: if_splits option.splits sum.splits)

lemma index_vectors_calls:
  "\<exists>cs. calls (snd (index_vectors env path base cb document pgs st)) = calls st @ cs"
proof -
  obtain chunks metadata st2 where cp:
    "chunk_pages path (doc_id document) pgs
       (progress_emitter cb ''Chunking content'' (Some 0.55) st) = ((chunks, metadata), st2)"
    by (metis surj_pair)
  from chunk_pages_calls [of path "doc_id document" pgs
      "progress_emitter cb ''Chunking content'' (Some 0.55) st"] cp
  obtain cs where cs: "calls st2 = calls st @ cs" by auto
  show ?thesis
    unfolding index_vectors_def Let_def cp
    using cs
    by (auto split: sum.splits prod.splits dest: add_documents_calls)
qed

lemma reindex_calls:
  "\<exists>cs. calls (snd (reindex env fs path base cb document st)) = calls st @ ParseCall path # cs"
proof (cases "parse env fs path (last_file_hash st)")
  case (Pair r lfh)
  show ?thesis
  proof (cases r)
    case (Inl e)
    with Pair show ?thesis by (simp add: reindex_def Let_def)
  next
    case (Inr pgs)
    let ?st7 = "commit (store_pages (doc_id document) pgs
       (progress_emitter cb ''Storing pages'' (Some 0.45)
         (commit ((commit ((progress_emitter cb ''Clearing previous pages'' (Some 0.35)
             (progress_emitter cb ''Parsing document'' (Some 0.2) st
                \<lparr>calls := calls st @ [ParseCall path], last_file_hash := lfh\<rparr>))
             \<lparr>pages := filter (\<lambda>p. document_id p \<noteq> doc_id document) (pages st)\<rparr>))
           \<lparr>documents := update_document
               (document\<lparr>total_pages := Some (length pgs), indexed_at := utcnow env\<rparr>)
               (documents st)\<rparr>))))"
    have r: "reindex env fs path base cb document st
        = index_vectors env path base cb
            (document\<lparr>total_pages := Some (length pgs), indexed_at := utcnow env\<rparr>) pgs ?st7"
      using Pair Inr by (simp add: reindex_def Let_def)
    have c: "calls ?st7 = calls st @ [ParseCall path]"
      by (simp add: store_pages_def)
    from index_vectors_calls [of env path base cb _ pgs ?st7] c
    show ?thesis unfolding r by auto
  qed
qed


lemma emit_as_update:
  "progress_emitter cb m p st
     = st\<lparr>reported := reported st @ (case cb of None \<Rightarrow> [] | Some f \<Rightarrow> f m p)\<rparr>"
  by (cases cb) (simp_all add: progress_emitter_def)

lemma find_update_document:
  assumes "find (\<lambda>x. doc_path x = p) docs = Some d"
    and "doc_id d' = doc_id d" and "doc_path d' = p"
  shows "find (\<lambda>x. doc_path x = p) (update_document d' docs) = Some d'"
  using assms
proof (induction docs)
  case Nil
  then show ?case by simp
next
  case (Cons x xs)
  show ?case
  proof (cases "doc_path x = p")
    case True
    with Cons.prems show ?thesis by (simp add: update_document_def)
  next
    case False
    with Cons.prems have "find (\<lambda>x. doc_path x = p) xs = Some d" by simp
    from Cons.IH [OF this Cons.prems(2,3)] False Cons.prems(3)
    show ?thesis by (simp add: update_document_def)
  qed
qed

lemma find_append_new:
  "find P xs = None \<Longrightarrow> P d \<Longrightarrow> find P (xs @ [d]) = Some d"
  by (induction xs) (auto split: if_splits)

lemma get_or_create_document_found:
  assumes "get_or_create_document env path base h st = (document, st')"
  shows "find (\<lambda>x. doc_path x = path) (documents st') = Some document
       \<and> file_hash document = h \<and> doc_path document = path
       \<and> pages st' = pages st \<and> collection st' = collection st \<and> calls st' = calls st
       \<and> last_file_hash st' = last_file_hash st \<and> reported st' = reported st"
proof (cases "find (\<lambda>d. doc_path d = path) (documents st)")
  case None
  with assms show ?thesis
    by (auto simp: get_or_create_document_def Let_def find_append_new)
next
  case (Some d)
  then have dp: "doc_path d = path"
    by (auto simp: find_Some_iff)
  show ?thesis
  proof (cases "file_hash d = h \<and> total_pages d \<noteq> None")
    case True
    with assms Some dp show ?thesis
      by (auto simp: get_or_create_document_def)
  next
    case False
    let ?d = "d\<lparr>filename := path_name path, doc_path := path, base_name := base,
                 file_hash := h, total_pages := None, indexed_at := utcnow env\<rparr>"
    from False assms Some have eq: "document = ?d"
        "st' = commit (st\<lparr>documents := update_document ?d (documents st)\<rparr>)"
      by (auto simp: get_or_create_document_def Let_def)
    have "find (\<lambda>x. doc_path x = path) (update_document ?d (documents st)) = Some ?d"
      by (rule find_update_document [OF Some]) simp_all
    then show ?thesis unfolding eq by simp
  qed
qed

lemma get_or_create_document_skip:
  assumes "find (\<lambda>x. doc_path x = path) (documents st) = Some d"
    and "file_hash d = h" and "total_pages d \<noteq> None"
  shows "get_or_create_document env path base h st = (d, st)"
  using assms by (simp add: get_or_create_document_def)

lemma get_or_create_document_fresh:
  assumes "\<not> (\<exists>d. find (\<lambda>x. doc_path x = path) (documents st) = Some d
              \<and> file_hash d = h \<and> total_pages d \<noteq> None)"
    and "get_or_create_document env path base h st = (document, st')"
  shows "total_pages document = None \<and> commits st' = commits st @ [(documents st', pages st)]"
  using assms
  by (auto simp: get_or_create_document_def Let_def split: option.splits if_splits)


lemma chunk_pages_loop_state:
  "snd (chunk_pages_loop path doc nps acc st)
     = st\<lparr>calls := calls st @ map (\<lambda>np. ChunkCall (snd np)) nps\<rparr>"
proof (induction nps arbitrary: acc st)
  case Nil
  then show ?case by simp
next
  case (Cons a nps)
  obtain num t where a: "a = (num, t)" by (cases a)
  show ?case unfolding a by (simp add: Cons)
qed

lemma chunk_pages_state:
  "snd (chunk_pages path doc pgs st) = st\<lparr>calls := calls st @ map ChunkCall pgs\<rparr>"
proof -
  let ?nps = "zip [1 ..< Suc (length pgs)] pgs"
  have "map snd ?nps = pgs"
    by (rule map_snd_zip) (simp del: upt_Suc)
  moreover have "map (\<lambda>np. ChunkCall (snd np)) ?nps = map ChunkCall (map snd ?nps)"
    by (simp only: map_map comp_def)
  ultimately have m: "map (\<lambda>np. ChunkCall (snd np)) ?nps = map ChunkCall pgs"
    by (simp only:)
  have "snd (chunk_pages path doc pgs st) = snd (chunk_pages_loop path doc ?nps ([], [], 0) st)"
    by (simp add: chunk_pages_def split: prod.splits del: upt_Suc)
  also have "\<dots> = st\<lparr>calls := calls st @ map (\<lambda>np. ChunkCall (snd np)) ?nps\<rparr>"
    by (rule chunk_pages_loop_state)
  finally show ?thesis unfolding m .
qed

lemma ensure_collection_fields [simp]:
  "documents (ensure_collection st) = documents st"
  "pages (ensure_collection st) = pages st"
  "commits (ensure_collection st) = commits st"
  "last_file_hash (ensure_collection st) = last_file_hash st"
  "reported (ensure_collection st) = reported st"
  by (simp_all add: ensure_collection_def create_collection_def split: option.splits)

lemma add_documents_fields:
  assumes "add_documents env chunks embeddings metadata st = Inr (ids, st')"
  shows "documents st' = documents st \<and> pages st' = pages st \<and> commits st' = commits st
       \<and> last_file_hash st' = last_file_hash st \<and> reported st' = reported st"
  using assms by (auto simp: add_documents_def Let_def split: if_splits option.splits sum.splits)

lemma index_vectors_frame:
  assumes "index_vectors env path base cb document pgs st = (r, st')"
  shows "documents st' = documents st \<and> pages st' = pages st \<and> commits st' = commits st
       \<and> last_file_hash st' = last_file_hash st \<and> (\<forall>d. r = Inr d \<longrightarrow> d = document)"
proof -
  obtain chunks metadata st2 where cp:
    "chunk_pages path (doc_id document) pgs
       (progress_emitter cb ''Chunking content'' (Some 0.55) st) = ((chunks, metadata), st2)"
    by (metis surj_pair)
  from chunk_pages_state [of path "doc_id document" pgs
      "progress_emitter cb ''Chunking content'' (Some 0.55) st"] cp
  have st2: "documents st2 = documents st" "pages st2 = pages st" "commits st2 = commits st"
    "last_file_hash st2 = last_file_hash st"
    by simp_all
  from assms show ?thesis
    unfolding index_vectors_def Let_def cp
    using st2
    by (auto split: sum.splits prod.splits if_splits dest: add_documents_fields)
qed

lemma parse_result_independent:
  "fst (parse env fs path l) = fst (parse env fs path l')"
  by (simp add: parse_def split: sum.splits)

lemma reindex_parse_failure:
  assumes "reindex env fs path base cb document st = (r, st')"
    and "fst (parse env fs path l) = Inl e"
  shows "r = Inl e \<and> documents st' = documents st \<and> pages st' = pages st
       \<and> commits st' = commits st"
proof -
  from assms(2) have "fst (parse env fs path (last_file_hash st)) = Inl e"
    by (simp add: parse_result_independent [of env fs path "last_file_hash st" l])
  then obtain lfh where "parse env fs path (last_file_hash st) = (Inl e, lfh)"
    by (cases "parse env fs path (last_file_hash st)") auto
  with assms(1) show ?thesis
    by (auto simp: reindex_def Let_def)
qed

lemma reindex_parse_success:
  assumes "reindex env fs path base cb document st = (r, st')"
    and "fst (parse env fs path l) = Inr pgs"
  shows "commits st' = commits st @
           [(documents st, filter (\<lambda>p. document_id p \<noteq> doc_id document) (pages st)),
            (update_document
               (document\<lparr>total_pages := Some (length pgs), indexed_at := utcnow env\<rparr>)
               (documents st),
             filter (\<lambda>p. document_id p \<noteq> doc_id document) (pages st)),
            (update_document
               (document\<lparr>total_pages := Some (length pgs), indexed_at := utcnow env\<rparr>)
               (documents st),
             filter (\<lambda>p. document_id p \<noteq> doc_id document) (pages st)
               @ new_pages (doc_id document) pgs)]
       \<and> documents st' = update_document
               (document\<lparr>total_pages := Some (length pgs), indexed_at := utcnow env\<rparr>)
               (documents st)
       \<and> pages st' = filter (\<lambda>p. document_id p \<noteq> doc_id document) (pages st)
               @ new_pages (doc_id document) pgs
       \<and> (\<forall>d. r = Inr d \<longrightarrow>
             d = document\<lparr>total_pages := Some (length pgs), indexed_at := utcnow env\<rparr>)"
proof -
  from assms(2) have "fst (parse env fs path (last_file_hash st)) = Inr pgs"
    by (simp add: parse_result_independent [of env fs path "last_file_hash st" l])
  then obtain lfh where p: "parse env fs path (last_file_hash st) = (Inr pgs, lfh)"
    by (cases "parse env fs path (last_file_hash st)") auto
  let ?d = "document\<lparr>total_pages := Some (length pgs), indexed_at := utcnow env\<rparr>"
  let ?st7 = "commit (store_pages (doc_id ?d) pgs
       (progress_emitter cb ''Storing pages'' (Some 0.45)
         (commit ((commit ((progress_emitter cb ''Clearing previous pages'' (Some 0.35)
             (progress_emitter cb ''Parsing document'' (Some 0.2) st
                \<lparr>calls := calls st @ [ParseCall path], last_file_hash := lfh\<rparr>))
             \<lparr>pages := filter (\<lambda>p. document_id p \<noteq> doc_id document) (pages st)\<rparr>))
           \<lparr>documents := update_document ?d (documents st)\<rparr>))))"
  have r: "index_vectors env path base cb ?d pgs ?st7 = (r, st')"
    using assms(1) p by (simp add: reindex_def Let_def)
  have c: "commits ?st7 = commits st @
           [(documents st, filter (\<lambda>p. document_id p \<noteq> doc_id document) (pages st)),
            (update_document ?d (documents st),
             filter (\<lambda>p. document_id p \<noteq> doc_id document) (pages st)),
            (update_document ?d (documents st),
             filter (\<lambda>p. document_id p \<noteq> doc_id document) (pages st)
               @ new_pages (doc_id document) pgs)]"
    and d: "documents ?st7 = update_document ?d (documents st)"
    and g: "pages ?st7 = filter (\<lambda>p. document_id p \<noteq> doc_id document) (pages st)
               @ new_pages (doc_id document) pgs"
    by (simp_all add: store_pages_def)
  from index_vectors_frame [OF r] c d g show ?thesis by simp
qed

lemma index_document_missing:
  "\<not> path_exists fs path \<or> \<not> is_file fs path \<Longrightarrow>
   index_document env fs path base cb st
     = (Inl (FileNotFoundError (''File not found: '' @ path)), st)"
  by (simp add: index_document_def Let_def)

lemma index_document_file:
  assumes "map_of fs path = Some (File bs)"
    and "compute_file_hash (sha256 env) fs path 8192 = Inr h"
  shows "index_document env fs path base cb st =
     (case get_or_create_document env path base h
             (progress_emitter cb ''Computed file hash'' (Some 0.05)
               (progress_emitter cb (''Starting indexing for '' @ path_name path) (Some 0) st)) of
        (document, st3) \<Rightarrow>
          if file_hash document = h \<and> total_pages document \<noteq> None
          then (Inr document,
                progress_emitter cb (''No changes detected for '' @ path_name path
                                       @ ''. Skipping.'') (Some 1) st3)
          else reindex env fs path base cb document st3)"
  using assms by (simp add: index_document_def Let_def path_exists_def is_file_def)

lemma compute_file_hash_file:
  "map_of fs path = Some (File bs) \<Longrightarrow> \<exists>h. compute_file_hash sha fs path n = Inr h"
  by (simp add: compute_file_hash_def read_bytes_def)

lemma index_document_skip:
  assumes isfile: "map_of fs path = Some (File bs)"
    and hash: "compute_file_hash (sha256 env) fs path 8192 = Inr h"
    and found: "find (\<lambda>x. doc_path x = path) (documents st) = Some d"
    and same: "file_hash d = h" and known: "total_pages d \<noteq> None"
  shows "index_document env fs path base cb st =
     (Inr d,
      progress_emitter cb (''No changes detected for '' @ path_name path @ ''. Skipping.'') (Some 1)
        (progress_emitter cb ''Computed file hash'' (Some 0.05)
          (progress_emitter cb (''Starting indexing for '' @ path_name path) (Some 0) st)))"
proof -
  let ?st2 = "progress_emitter cb ''Computed file hash'' (Some 0.05)
          (progress_emitter cb (''Starting indexing for '' @ path_name path) (Some 0) st)"
  have "find (\<lambda>x. doc_path x = path) (documents ?st2) = Some d"
    using found by simp
  from get_or_create_document_skip [OF this same known]
  have "get_or_create_document env path base h ?st2 = (d, ?st2)" .
  then show ?thesis
    unfolding index_document_file [OF isfile hash] using same known by simp
qed

lemma index_document_no_skip:
  assumes isfile: "map_of fs path = Some (File bs)"
    and hash: "compute_file_hash (sha256 env) fs path 8192 = Inr h"
    and fresh: "\<not> (\<exists>d. find (\<lambda>x. doc_path x = path) (documents st) = Some d
                  \<and> file_hash d = h \<and> total_pages d \<noteq> None)"
  shows "\<exists>document st3.
      get_or_create_document env path base h
        (progress_emitter cb ''Computed file hash'' (Some 0.05)
          (progress_emitter cb (''Starting indexing for '' @ path_name path) (Some 0) st))
        = (document, st3)
      \<and> index_document env fs path base cb st = reindex env fs path base cb document st3"
proof -
  let ?st2 = "progress_emitter cb ''Computed file hash'' (Some 0.05)
          (progress_emitter cb (''Starting indexing for '' @ path_name path) (Some 0) st)"
  obtain document st3 where g: "get_or_create_document env path base h ?st2 = (document, st3)"
    by (cases "get_or_create_document env path base h ?st2")
  have "\<not> (\<exists>d. find (\<lambda>x. doc_path x = path) (documents ?st2) = Some d
                  \<and> file_hash d = h \<and> total_pages d \<noteq> None)"
    using fresh by simp
  from get_or_create_document_fresh [OF this g]
  have "total_pages document = None" by simp
  then show ?thesis
    unfolding index_document_file [OF isfile hash] g by simp
qed

text \<open>
  C3. For a regular file, \<^verbatim>\<open>index_document\<close> skips, that is, returns without calling
  the parser, exactly when the first stored document with the file's path has the
  recomputed hash and a page count that is not null. On a skip it returns that stored
  document, makes no call to the parser, the chunker or the embedding service, commits
  nothing, and leaves the documents, the pages and the vector collection as they were.
\<close>

theorem index_document_skips_exactly_when_unchanged:
  assumes isfile: "map_of fs path = Some (File bs)"
    and hash: "compute_file_hash (sha256 env) fs path 8192 = Inr h"
  shows "((\<exists>d. find (\<lambda>x. doc_path x = path) (documents st) = Some d
              \<and> file_hash d = h \<and> total_pages d \<noteq> None)
          \<longleftrightarrow> ParseCall path \<notin> set (drop (length (calls st))
                                     (calls (snd (index_document env fs path base cb st)))))
       \<and> (\<forall>d. find (\<lambda>x. doc_path x = path) (documents st) = Some d
              \<and> file_hash d = h \<and> total_pages d \<noteq> None \<longrightarrow>
            fst (index_document env fs path base cb st) = Inr d
            \<and> calls (snd (index_document env fs path base cb st)) = calls st
            \<and> documents (snd (index_document env fs path base cb st)) = documents st
            \<and> pages (snd (index_document env fs path base cb st)) = pages st
            \<and> commits (snd (index_document env fs path base cb st)) = commits st
            \<and> collection (snd (index_document env fs path base cb st)) = collection st
            \<and> last_file_hash (snd (index_document env fs path base cb st)) = last_file_hash st)"
proof (intro conjI allI impI iffI)
  assume "\<exists>d. find (\<lambda>x. doc_path x = path) (documents st) = Some d
              \<and> file_hash d = h \<and> total_pages d \<noteq> None"
  then obtain d where d: "find (\<lambda>x. doc_path x = path) (documents st) = Some d"
    "file_hash d = h" "total_pages d \<noteq> None" by blast
  show "ParseCall path \<notin> set (drop (length (calls st))
                                     (calls (snd (index_document env fs path base cb st))))"
    unfolding index_document_skip [OF isfile hash d] by simp
next
  assume np: "ParseCall path \<notin> set (drop (length (calls st))
                                     (calls (snd (index_document env fs path base cb st))))"
  show "\<exists>d. find (\<lambda>x. doc_path x = path) (documents st) = Some d
              \<and> file_hash d = h \<and> total_pages d \<noteq> None"
  proof (rule ccontr)
    assume fresh: "\<not> (\<exists>d. find (\<lambda>x. doc_path x = path) (documents st) = Some d
              \<and> file_hash d = h \<and> total_pages d \<noteq> None)"
    from index_document_no_skip [OF isfile hash fresh, of base cb]
    obtain document st3 where g: "get_or_create_document env path base h
        (progress_emitter cb ''Computed file hash'' (Some 0.05)
          (progress_emitter cb (''Starting indexing for '' @ path_name path) (Some 0) st))
        = (document, st3)"
      and r: "index_document env fs path base cb st = reindex env fs path base cb document st3"
      by blast
    from get_or_create_document_found [OF g] have c: "calls st3 = calls st" by simp
    from reindex_calls [of env fs path base cb document st3] c
    obtain cs where "calls (snd (index_document env fs path base cb st))
        = calls st @ ParseCall path # cs"
      unfolding r by auto
    with np show False by simp
  qed
next
  fix d
  assume "find (\<lambda>x. doc_path x = path) (documents st) = Some d
              \<and> file_hash d = h \<and> total_pages d \<noteq> None"
  then have d: "find (\<lambda>x. doc_path x = path) (documents st) = Some d"
    "file_hash d = h" "total_pages d \<noteq> None" by simp_all
  note s = index_document_skip [OF isfile hash d, of base cb]
  show "fst (index_document env fs path base cb st) = Inr d" unfolding s by simp
  show "calls (snd (index_document env fs path base cb st)) = calls st" unfolding s by simp
  show "documents (snd (index_document env fs path base cb st)) = documents st"
    unfolding s by simp
  show "pages (snd (index_document env fs path base cb st)) = pages st" unfolding s by simp
  show "commits (snd (index_document env fs path base cb st)) = commits st" unfolding s by simp
  show "collection (snd (index_document env fs path base cb st)) = collection st"
    unfolding s by simp
  show "last_file_hash (snd (index_document env fs path base cb st)) = last_file_hash st"
    unfolding s by simp
qed

lemma is_file_File: "is_file fs path \<Longrightarrow> \<exists>bs. map_of fs path = Some (File bs)"
  by (auto simp: is_file_def split: option.splits node.splits)

lemma index_document_success_stored:
  assumes run: "index_document env fs path base cb st = (Inr d1, st1)"
  shows "\<exists>bs. map_of fs path = Some (File bs)
       \<and> compute_file_hash (sha256 env) fs path 8192 = Inr (file_hash d1)
       \<and> find (\<lambda>x. doc_path x = path) (documents st1) = Some d1
       \<and> total_pages d1 \<noteq> None"
proof -
  have "\<not> (\<not> path_exists fs path \<or> \<not> is_file fs path)"
    using run index_document_missing [of fs path env base cb st] by auto
  then obtain bs where isfile: "map_of fs path = Some (File bs)"
    using is_file_File by blast
  from compute_file_hash_file [OF isfile]
  obtain h where hash: "compute_file_hash (sha256 env) fs path 8192 = Inr h" by blast
  show ?thesis
  proof (cases "\<exists>d. find (\<lambda>x. doc_path x = path) (documents st) = Some d
                  \<and> file_hash d = h \<and> total_pages d \<noteq> None")
    case True
    then obtain d where d: "find (\<lambda>x. doc_path x = path) (documents st) = Some d"
      "file_hash d = h" "total_pages d \<noteq> None" by blast
    from run have "d1 = d" "documents st1 = documents st"
      unfolding index_document_skip [OF isfile hash d] by auto
    with d isfile hash show ?thesis by simp
  next
    case False
    from index_document_no_skip [OF isfile hash False, of base cb]
    obtain document st3 where g: "get_or_create_document env path base h
        (progress_emitter cb ''Computed file hash'' (Some 0.05)
          (progress_emitter cb (''Starting indexing for '' @ path_name path) (Some 0) st))
        = (document, st3)"
      and r: "index_document env fs path base cb st = reindex env fs path base cb document st3"
      by blast
    from run r have rr: "reindex env fs path base cb document st3 = (Inr d1, st1)" by simp
    note found = get_or_create_document_found [OF g]
    show ?thesis
    proof (cases "fst (parse env fs path None)")
      case (Inl e)
      from reindex_parse_failure [OF rr Inl] show ?thesis by simp
    next
      case (Inr pgs)
      let ?d = "document\<lparr>total_pages := Some (length pgs), indexed_at := utcnow env\<rparr>"
      from reindex_parse_success [OF rr Inr]
      have d1: "d1 = ?d" and docs: "documents st1 = update_document ?d (documents st3)"
        by simp_all
      have "find (\<lambda>x. doc_path x = path) (update_document ?d (documents st3)) = Some ?d"
        by (rule find_update_document [where d = document]) (use found in simp_all)
      with d1 docs found isfile hash show ?thesis by simp
    qed
  qed
qed

text \<open>
  C8. When \<^verbatim>\<open>index_document\<close> has returned a document for a file, a second call on the
  state it left, with the same file system, returns a document with the same id, the same
  hash and the same page count.
\<close>

theorem index_document_idempotent:
  assumes "index_document env fs path base cb st = (Inr d1, st1)"
  shows "\<exists>d2. fst (index_document env fs path base cb' st1) = Inr d2
       \<and> doc_id d2 = doc_id d1 \<and> file_hash d2 = file_hash d1
       \<and> total_pages d2 = total_pages d1"
proof -
  from index_document_success_stored [OF assms]
  obtain bs where isfile: "map_of fs path = Some (File bs)"
    and hash: "compute_file_hash (sha256 env) fs path 8192 = Inr (file_hash d1)"
    and found: "find (\<lambda>x. doc_path x = path) (documents st1) = Some d1"
    and known: "total_pages d1 \<noteq> None"
    by blast
  have "fst (index_document env fs path base cb' st1) = Inr d1"
    unfolding index_document_skip [OF isfile hash found refl known] by simp
  then show ?thesis by simp
qed

lemma pages_of_deleted: "pages_of doc (filter (\<lambda>p. document_id p \<noteq> doc) pgs) = []"
  by (induction pgs) (simp_all add: pages_of_def)

lemma pages_of_new_pages: "pages_of doc (new_pages doc texts) = new_pages doc texts"
proof -
  have "\<forall>p \<in> set (new_pages doc texts). document_id p = doc"
    by (auto simp: new_pages_def)
  then show ?thesis
    by (simp add: pages_of_def)
qed

lemma pages_of_append: "pages_of doc (xs @ ys) = pages_of doc xs @ pages_of doc ys"
  by (simp add: pages_of_def)

text \<open>
  C2, as amended. On a run of \<^verbatim>\<open>index_document\<close> that does not skip, the hash update,
  the delete of the old pages, the page count and the new pages are committed in this
  order, each in a transaction of its own. The first commit holds the new hash with a null
  page count, and the run commits nothing more when the parse fails. The second holds the
  same documents and no page of the document. No committed state has a page count that is
  not null together with a page of the previous version, and after the last commit the
  page count is the number of parsed pages and the stored pages of the document are
  exactly the new ones.
\<close>

theorem reindex_commits_in_order:
  assumes isfile: "map_of fs path = Some (File bs)"
    and hash: "compute_file_hash (sha256 env) fs path 8192 = Inr h"
    and fresh: "\<not> (\<exists>d. find (\<lambda>x. doc_path x = path) (documents st) = Some d
                  \<and> file_hash d = h \<and> total_pages d \<noteq> None)"
  shows "(\<forall>e. fst (parse env fs path None) = Inl e \<longrightarrow>
            (\<exists>d c1. commits (snd (index_document env fs path base cb st)) = commits st @ [c1]
               \<and> find (\<lambda>x. doc_path x = path) (fst c1) = Some d
               \<and> file_hash d = h \<and> total_pages d = None))
       \<and> (\<forall>pgs. fst (parse env fs path None) = Inr pgs \<longrightarrow>
            (\<exists>d c1 c2 c3 c4.
               commits (snd (index_document env fs path base cb st))
                 = commits st @ [c1, c2, c3, c4]
               \<and> find (\<lambda>x. doc_path x = path) (fst c1) = Some d
               \<and> file_hash d = h \<and> total_pages d = None
               \<and> fst c2 = fst c1 \<and> pages_of (doc_id d) (snd c2) = []
               \<and> find (\<lambda>x. doc_path x = path) (fst c3)
                   = Some (d\<lparr>total_pages := Some (length pgs), indexed_at := utcnow env\<rparr>)
               \<and> set (pages_of (doc_id d) (snd c3)) \<subseteq> set (new_pages (doc_id d) pgs)
               \<and> fst c4 = fst c3
               \<and> pages_of (doc_id d) (snd c4) = new_pages (doc_id d) pgs))"
proof -
  from index_document_no_skip [OF isfile hash fresh, of base cb]
  obtain document st3 where g: "get_or_create_document env path base h
        (progress_emitter cb ''Computed file hash'' (Some 0.05)
          (progress_emitter cb (''Starting indexing for '' @ path_name path) (Some 0) st))
        = (document, st3)"
    and r: "index_document env fs path base cb st = reindex env fs path base cb document st3"
    by blast
  let ?st2 = "progress_emitter cb ''Computed file hash'' (Some 0.05)
          (progress_emitter cb (''Starting indexing for '' @ path_name path) (Some 0) st)"
  have fresh2: "\<not> (\<exists>d. find (\<lambda>x. doc_path x = path) (documents ?st2) = Some d
                  \<and> file_hash d = h \<and> total_pages d \<noteq> None)"
    using fresh by simp
  from get_or_create_document_fresh [OF fresh2 g]
  have none: "total_pages document = None"
    and c3: "commits st3 = commits st @ [(documents st3, pages st)]"
    by simp_all
  from get_or_create_document_found [OF g]
  have found: "find (\<lambda>x. doc_path x = path) (documents st3) = Some document"
    and fh: "file_hash document = h" and dp: "doc_path document = path"
    and pg: "pages st3 = pages st"
    by simp_all
  obtain res st' where rr: "reindex env fs path base cb document st3 = (res, st')"
    by (cases "reindex env fs path base cb document st3")
  show ?thesis
  proof (intro conjI allI impI)
    fix e
    assume "fst (parse env fs path None) = Inl e"
    from reindex_parse_failure [OF rr this]
    have "commits st' = commits st @ [(documents st3, pages st)]"
      using c3 by simp
    with found fh none
    show "\<exists>d c1. commits (snd (index_document env fs path base cb st)) = commits st @ [c1]
               \<and> find (\<lambda>x. doc_path x = path) (fst c1) = Some d
               \<and> file_hash d = h \<and> total_pages d = None"
      unfolding r rr by auto
  next
    fix pgs
    assume p: "fst (parse env fs path None) = Inr pgs"
    let ?d = "document\<lparr>total_pages := Some (length pgs), indexed_at := utcnow env\<rparr>"
    let ?P1 = "filter (\<lambda>p. document_id p \<noteq> doc_id document) (pages st)"
    let ?D2 = "update_document ?d (documents st3)"
    from reindex_parse_success [OF rr p]
    have c: "commits st' = commits st @
        [(documents st3, pages st), (documents st3, ?P1), (?D2, ?P1),
         (?D2, ?P1 @ new_pages (doc_id document) pgs)]"
      using c3 pg by simp
    have f2: "find (\<lambda>x. doc_path x = path) ?D2 = Some ?d"
      by (rule find_update_document [OF found]) (simp_all add: dp)
    have p1: "pages_of (doc_id document) ?P1 = []"
      by (rule pages_of_deleted)
    have p4: "pages_of (doc_id document) (?P1 @ new_pages (doc_id document) pgs)
        = new_pages (doc_id document) pgs"
      by (simp add: pages_of_append p1 pages_of_new_pages)
    show "\<exists>d c1 c2 c3 c4.
               commits (snd (index_document env fs path base cb st))
                 = commits st @ [c1, c2, c3, c4]
               \<and> find (\<lambda>x. doc_path x = path) (fst c1) = Some d
               \<and> file_hash d = h \<and> total_pages d = None
               \<and> fst c2 = fst c1 \<and> pages_of (doc_id d) (snd c2) = []
               \<and> find (\<lambda>x. doc_path x = path) (fst c3)
                   = Some (d\<lparr>total_pages := Some (length pgs), indexed_at := utcnow env\<rparr>)
               \<and> set (pages_of (doc_id d) (snd c3)) \<subseteq> set (new_pages (doc_id d) pgs)
               \<and> fst c4 = fst c3
               \<and> pages_of (doc_id d) (snd c4) = new_pages (doc_id d) pgs"
      unfolding r rr
      apply (rule exI [of _ document])
      apply (rule exI [of _ "(documents st3, pages st)"])
      apply (rule exI [of _ "(documents st3, ?P1)"])
      apply (rule exI [of _ "(?D2, ?P1)"])
      apply (rule exI [of _ "(?D2, ?P1 @ new_pages (doc_id document) pgs)"])
      using c found fh none f2 p1 p4 by simp
  qed
qed

lemma unknown_progress_append [simp]:
  "unknown_progress (xs @ ys) = unknown_progress xs @ unknown_progress ys"
  by (simp add: unknown_progress_def)

lemma emit_known:
  assumes "\<forall>m p. unknown_progress (g m p) = []"
  shows "unknown_progress (reported (progress_emitter (Some g) m p st))
       = unknown_progress (reported st)"
  using assms by (simp add: progress_emitter_def)

lemma add_documents_reported:
  "add_documents env chunks embeddings metadata st = Inr (ids, st') \<Longrightarrow> reported st' = reported st"
  by (auto simp: add_documents_def Let_def split: if_splits sum.splits)

lemma index_vectors_known:
  assumes k: "\<forall>m p. unknown_progress (g m p) = []"
  shows "unknown_progress (reported (snd (index_vectors env path base (Some g) document pgs st)))
       = unknown_progress (reported st)"
proof -
  obtain chunks metadata st2 where cp:
    "chunk_pages path (doc_id document) pgs
       (progress_emitter (Some g) ''Chunking content'' (Some 0.55) st) = ((chunks, metadata), st2)"
    by (metis surj_pair)
  from chunk_pages_state [of path "doc_id document" pgs
      "progress_emitter (Some g) ''Chunking content'' (Some 0.55) st"] cp
  have "reported st2 = reported (progress_emitter (Some g) ''Chunking content'' (Some 0.55) st)"
    by simp
  then have st2: "unknown_progress (reported st2) = unknown_progress (reported st)"
    by (simp add: emit_known [OF k])
  show ?thesis
    unfolding index_vectors_def Let_def cp
    using st2
    by (auto simp: emit_known [OF k] split: sum.splits prod.splits
             dest: add_documents_reported)
qed

lemma reindex_known:
  assumes k: "\<forall>m p. unknown_progress (g m p) = []"
  shows "unknown_progress (reported (snd (reindex env fs path base (Some g) document st)))
       = unknown_progress (reported st)"
proof (cases "parse env fs path (last_file_hash st)")
  case (Pair r lfh)
  show ?thesis
  proof (cases r)
    case (Inl e)
    with Pair show ?thesis by (simp add: reindex_def Let_def emit_known [OF k])
  next
    case (Inr pgs)
    with Pair show ?thesis
      by (simp add: reindex_def Let_def index_vectors_known [OF k] emit_known [OF k]
            store_pages_def)
  qed
qed

lemma index_document_known:
  assumes k: "\<forall>m p. unknown_progress (g m p) = []"
  shows "unknown_progress (reported (snd (index_document env fs path base (Some g) st)))
       = unknown_progress (reported st)"
proof (cases "\<not> path_exists fs path \<or> \<not> is_file fs path")
  case True
  then show ?thesis by (simp add: index_document_missing)
next
  case False
  then obtain bs where isfile: "map_of fs path = Some (File bs)"
    using is_file_File by blast
  from compute_file_hash_file [OF isfile]
  obtain h where hash: "compute_file_hash (sha256 env) fs path 8192 = Inr h" by blast
  let ?st2 = "progress_emitter (Some g) ''Computed file hash'' (Some 0.05)
          (progress_emitter (Some g) (''Starting indexing for '' @ path_name path) (Some 0) st)"
  obtain document st3 where gc: "get_or_create_document env path base h ?st2 = (document, st3)"
    by (cases "get_or_create_document env path base h ?st2")
  from get_or_create_document_found [OF gc]
  have "reported st3 = reported ?st2" by simp
  then have "unknown_progress (reported st3) = unknown_progress (reported st)"
    by (simp add: emit_known [OF k])
  then show ?thesis
    unfolding index_document_file [OF isfile hash] gc
    by (simp add: emit_known [OF k] reindex_known [OF k])
qed

lemma nested_callback_known:
  "unknown_progress (nested_callback (Some observer) total_count idx m p) = []"
  by (simp add: nested_callback_def observer_def unknown_progress_def Let_def)

lemma scan_step_reports:
  assumes "total_count \<noteq> 0"
    and "scan_step env fs base (Some observer) total_count idx file_path st = (outcome, st')"
  shows "unknown_progress (reported st')
       = unknown_progress (reported st) @ failure_messages [(file_path, outcome)]"
proof -
  let ?st1 = "progress_emitter (Some observer)
      (''Indexing '' @ path_name file_path @ '' ('' @ str_nat idx @ ''/''
         @ str_nat total_count @ '')'')
      (if total_count \<noteq> 0 then Some ((real idx - 1) / real total_count) else None) st"
  have 1: "unknown_progress (reported ?st1) = unknown_progress (reported st)"
    using assms(1) by (simp add: progress_emitter_def observer_def unknown_progress_def)
  have k: "\<forall>m p. unknown_progress (nested_callback (Some observer) total_count idx m p) = []"
    by (simp add: nested_callback_known)
  obtain r st2 where run: "index_document env fs file_path base
      (Some (nested_callback (Some observer) total_count idx)) ?st1 = (r, st2)"
    by (cases "index_document env fs file_path base
      (Some (nested_callback (Some observer) total_count idx)) ?st1")
  from index_document_known [OF k, of env fs file_path base ?st1] run 1
  have 2: "unknown_progress (reported st2) = unknown_progress (reported st)" by simp
  from assms(2) show ?thesis
    unfolding scan_step_def Let_def run
    using 2
    by (cases r) (auto simp: progress_emitter_def observer_def unknown_progress_def)
qed

lemma scan_loop_outcomes:
  "fst (scan_loop env fs base cb total_count idx files indexed st)
     = indexed @ successes (file_outcomes env fs base cb total_count idx files st)"
proof (induction files arbitrary: idx indexed st)
  case Nil
  then show ?case by simp
next
  case (Cons f files)
  obtain outcome st' where s: "scan_step env fs base cb total_count idx f st = (outcome, st')"
    by (cases "scan_step env fs base cb total_count idx f st")
  show ?case
    by (cases outcome) (simp_all add: s Cons.IH)
qed

lemma file_outcomes_files:
  "map fst (file_outcomes env fs base cb total_count idx files st) = files"
proof (induction files arbitrary: idx st)
  case Nil
  then show ?case by simp
next
  case (Cons f files)
  obtain outcome st' where s: "scan_step env fs base cb total_count idx f st = (outcome, st')"
    by (cases "scan_step env fs base cb total_count idx f st")
  show ?case by (simp add: s Cons.IH)
qed

lemma scan_loop_reports:
  assumes "total_count \<noteq> 0"
  shows "unknown_progress
           (reported (snd (scan_loop env fs base (Some observer) total_count idx files indexed st)))
       = unknown_progress (reported st)
           @ failure_messages (file_outcomes env fs base (Some observer) total_count idx files st)"
proof (induction files arbitrary: idx indexed st)
  case Nil
  then show ?case by simp
next
  case (Cons f files)
  obtain outcome st' where
    s: "scan_step env fs base (Some observer) total_count idx f st = (outcome, st')"
    by (cases "scan_step env fs base (Some observer) total_count idx f st")
  note step = scan_step_reports [OF assms s]
  show ?case
  proof (cases outcome)
    case (Inl e)
    from s step show ?thesis unfolding Inl by (simp add: Cons.IH)
  next
    case (Inr d)
    from s step show ?thesis unfolding Inr by (simp add: Cons.IH)
  qed
qed

lemma scan_and_index_folder_unfold:
  assumes "scan_loop env fs base cb (length (scan_files fs base_data_dir base)) 1
             (scan_files fs base_data_dir base) []
             (progress_emitter cb
                (''Found '' @ str_nat (length (scan_files fs base_data_dir base))
                   @ '' file(s) to evaluate in '' @ base_data_dir @ ''/'' @ base @ ''/documents'')
                (Some (if length (scan_files fs base_data_dir base) \<noteq> 0 then 0 else 1)) st)
           = (docs, st2)"
  shows "scan_and_index_folder env fs base_data_dir base cb st
       = (docs, if length (scan_files fs base_data_dir base) \<noteq> 0
                then progress_emitter cb ''Folder scan complete'' (Some 1) st2 else st2)"
  unfolding scan_and_index_folder_def Let_def assms prod.case ..

text \<open>
  C4, as amended. \<^verbatim>\<open>scan_and_index_folder\<close> passes to \<^verbatim>\<open>index_document\<close> exactly the
  regular files of the documents directory that have a supported extension, in sorted
  order, each of them whatever happened to the files before it; it returns exactly the
  documents of the calls that succeeded, in that order, and it reports with unknown
  progress one failure message for each call that raised, and no other message. A file
  with an unsupported extension is not among the files of the loop, so nothing is reported
  for it.
\<close>

theorem scan_and_index_folder_outcomes:
  "map fst (scan_outcomes env fs base_data_dir base cb st)
     = sort (filter (\<lambda>p. is_file fs p \<and> lower (path_suffix p) \<in> set supported_extensions)
               (iterdir fs (base_data_dir @ ''/'' @ base @ ''/documents'')))
   \<and> fst (scan_and_index_folder env fs base_data_dir base cb st)
       = successes (scan_outcomes env fs base_data_dir base cb st)
   \<and> unknown_progress
       (reported (snd (scan_and_index_folder env fs base_data_dir base (Some observer) st)))
       = unknown_progress (reported st)
           @ failure_messages (scan_outcomes env fs base_data_dir base (Some observer) st)"
proof (intro conjI)
  show "map fst (scan_outcomes env fs base_data_dir base cb st)
     = sort (filter (\<lambda>p. is_file fs p \<and> lower (path_suffix p) \<in> set supported_extensions)
               (iterdir fs (base_data_dir @ ''/'' @ base @ ''/documents'')))"
    by (simp only: scan_outcomes_def Let_def file_outcomes_files scan_files_def)
next
  let ?files = "scan_files fs base_data_dir base"
  let ?st1 = "progress_emitter cb
      (''Found '' @ str_nat (length ?files) @ '' file(s) to evaluate in ''
         @ base_data_dir @ ''/'' @ base @ ''/documents'')
      (Some (if length ?files \<noteq> 0 then 0 else 1)) st"
  obtain docs st2 where sl: "scan_loop env fs base cb (length ?files) 1 ?files [] ?st1 = (docs, st2)"
    by (cases "scan_loop env fs base cb (length ?files) 1 ?files [] ?st1")
  have "docs = [] @ successes (file_outcomes env fs base cb (length ?files) 1 ?files ?st1)"
    using scan_loop_outcomes [of env fs base cb "length ?files" 1 ?files "[]" ?st1]
    unfolding sl fst_conv .
  then show "fst (scan_and_index_folder env fs base_data_dir base cb st)
       = successes (scan_outcomes env fs base_data_dir base cb st)"
    unfolding scan_and_index_folder_unfold [OF sl] scan_outcomes_def Let_def fst_conv
    by (simp only: append_Nil)
next
  let ?cb = "Some observer"
  let ?files = "scan_files fs base_data_dir base"
  let ?st1 = "progress_emitter ?cb
      (''Found '' @ str_nat (length ?files) @ '' file(s) to evaluate in ''
         @ base_data_dir @ ''/'' @ base @ ''/documents'')
      (Some (if length ?files \<noteq> 0 then 0 else 1)) st"
  have u1: "unknown_progress (reported ?st1) = unknown_progress (reported st)"
    by (simp only: emit_reported option.case observer_def unknown_progress_def)
       (simp del: length_0_conv)
  obtain docs st2 where sl: "scan_loop env fs base ?cb (length ?files) 1 ?files [] ?st1 = (docs, st2)"
    by (cases "scan_loop env fs base ?cb (length ?files) 1 ?files [] ?st1")
  have out: "scan_outcomes env fs base_data_dir base ?cb st
      = file_outcomes env fs base ?cb (length ?files) 1 ?files ?st1"
    unfolding scan_outcomes_def Let_def ..
  show "unknown_progress
       (reported (snd (scan_and_index_folder env fs base_data_dir base ?cb st)))
       = unknown_progress (reported st)
           @ failure_messages (scan_outcomes env fs base_data_dir base ?cb st)"
  proof (cases "length ?files \<noteq> 0")
    case False
    then have e: "?files = []" by simp
    have "file_outcomes env fs base ?cb (length ?files) 1 ?files ?st1 = []"
      unfolding e by simp
    moreover have "st2 = ?st1"
      using sl unfolding e by simp
    ultimately show ?thesis
      unfolding scan_and_index_folder_unfold [OF sl] out snd_conv
      using False u1 by simp
  next
    case True
    have "unknown_progress (reported st2) = unknown_progress (reported ?st1)
        @ failure_messages (file_outcomes env fs base ?cb (length ?files) 1 ?files ?st1)"
      using scan_loop_reports [OF True, of env fs base 1 ?files "[]" ?st1]
      unfolding sl snd_conv .
    moreover have "unknown_progress
        (reported (progress_emitter ?cb ''Folder scan complete'' (Some 1) st2))
        = unknown_progress (reported st2)"
      by (simp add: emit_reported observer_def unknown_progress_def)
    ultimately show ?thesis
      unfolding scan_and_index_folder_unfold [OF sl] out snd_conv
      using True u1 by simp
  qed
qed

end
